theory Spec2Isabelle
  imports
    Main
    "HOL-Library.Char_ord"
    "HOL-Library.List_Lexorder"
    "HOL-Library.Product_Lexorder"
begin

unbundle bit_operations_syntax

section \<open>Python values and errors\<close>

text \<open>
  The exceptions of Python that the modelled functions can raise. Every function of the
  model that can raise returns \<open>py_error + 'a\<close>, with \<open>Inl\<close> for the exception.
\<close>

datatype py_error = IndexError | KeyError | TypeError | OverflowError

section \<open>Movement controller (solver.py and finetune.py, class MouseSE)\<close>

subsection \<open>Integers through \<open>math.copysign\<close>\<close>

text \<open>
  \<open>int(math.copysign(a, b))\<close> converts both integers to IEEE doubles. The conversion
  of a Python integer is correctly rounded (to nearest, ties to even) and raises
  OverflowError when the rounded value does not fit a double. A double of magnitude at
  least \<open>2^53\<close> is an integer, so the value of \<open>float(n)\<close> is an integer for every
  integer \<open>n\<close>, and the model computes it in integers.

  \<open>ulp_exp n\<close> is the number of low bits that a 53-bit significand cannot hold.
\<close>

fun ulp_exp :: "nat \<Rightarrow> nat" where
  "ulp_exp n = (if n < 2 ^ 53 then 0 else Suc (ulp_exp (n div 2)))"

declare ulp_exp.simps [simp del]

definition round_to_double :: "nat \<Rightarrow> nat" where
  "round_to_double n =
     (let e = ulp_exp n; q = n div 2 ^ e; r = n mod 2 ^ e
      in if 2 * r < 2 ^ e \<or> (2 * r = 2 ^ e \<and> even q) then q * 2 ^ e else (q + 1) * 2 ^ e)"

definition py_float :: "int \<Rightarrow> py_error + int" where
  "py_float n =
     (let m = round_to_double (nat \<bar>n\<bar>)
      in if 2 ^ 1024 \<le> m then Inl OverflowError else Inr (sgn n * int m))"

definition int_copysign :: "int \<Rightarrow> int \<Rightarrow> py_error + int" where
  \<comment> \<open>\<open>int(math.copysign(a, b))\<close>: the magnitude of \<open>a\<close> with the sign of \<open>b\<close>\<close>
  "int_copysign a b =
     (case py_float a of
        Inl e \<Rightarrow> Inl e
      | Inr fa \<Rightarrow>
          (case py_float b of
             Inl e \<Rightarrow> Inl e
           | Inr fb \<Rightarrow> Inr (if fb < 0 then - \<bar>fa\<bar> else \<bar>fa\<bar>)))"

subsection \<open>The controller's state and \<open>_send\<close>\<close>

text \<open>
  \<open>current_x\<close>, \<open>current_y\<close> and \<open>current_button\<close> are the fields of MouseSE. The D-Bus
  client is the outside world: \<open>sent\<close> lists the packets handed to \<open>send_mouse\<close> in
  order, \<open>console\<close> the error lines printed by \<open>send_current\<close>. \<open>moves\<close> is a trace of
  the arguments of every \<open>_send\<close> call, kept to state properties of the steps before
  they are cut to a byte.

  A transport is a function telling, for the n-th packet handed over, whether
  \<open>send_mouse\<close> delivers it (True) or raises.
\<close>

record mouse =
  current_x :: int
  current_y :: int
  current_button :: int
  sent :: "int list list"
  console :: "string list"
  moves :: "(int \<times> int) list"

type_synonym transport = "nat \<Rightarrow> bool"

definition send_current :: "transport \<Rightarrow> int list \<Rightarrow> mouse \<Rightarrow> mouse" where
  \<comment> \<open>\<open>bytes(state)\<close> raises ValueError outside 0..255; every exception is caught and printed\<close>
  "send_current tr state m =
     (if (\<forall>b \<in> set state. 0 \<le> b \<and> b < 256) \<and> tr (length (sent m))
      then m\<lparr>sent := sent m @ [state]\<rparr>
      else if (\<forall>b \<in> set state. 0 \<le> b \<and> b < 256)
      then m\<lparr>sent := sent m @ [state], console := console m @ [''[ERROR] send_mouse failed'']\<rparr>
      else m\<lparr>console := console m @ [''[ERROR] send_mouse failed'']\<rparr>)"

definition send :: "transport \<Rightarrow> int \<Rightarrow> int \<Rightarrow> mouse \<Rightarrow> mouse" where
  "send tr dx dy m =
     (let dx_byte = dx AND 0xFF;
          dy_byte = dy AND 0xFF;
          state = [current_button m, dx_byte, dy_byte, 0]
      in send_current tr state (m\<lparr>moves := moves m @ [(dx, dy)]\<rparr>))"

subsection \<open>\<open>goto\<close>\<close>

definition FIXED_DELTA :: int where
  "FIXED_DELTA = 10"

definition FIXED_DELTA_finetune :: int where
  "FIXED_DELTA_finetune = 1"

definition axis_step :: "int \<Rightarrow> int \<Rightarrow> py_error + int" where
  \<comment> \<open>\<open>step = 0; if dx != 0: step = int(math.copysign(min(abs(dx), FIXED_DELTA), dx))\<close>\<close>
  "axis_step d dx = (if dx \<noteq> 0 then int_copysign (min \<bar>dx\<bar> d) dx else Inr 0)"

definition goto_body :: "int \<Rightarrow> transport \<Rightarrow> int \<Rightarrow> int \<Rightarrow> mouse \<Rightarrow> py_error + mouse" where
  \<comment> \<open>one iteration of the loop of solver.py, with \<open>dx\<close>, \<open>dy\<close> the remaining deltas\<close>
  "goto_body d tr dx dy m =
     (case axis_step d dx of
        Inl e \<Rightarrow> Inl e
      | Inr step_x \<Rightarrow>
          (case axis_step d dy of
             Inl e \<Rightarrow> Inl e
           | Inr step_y \<Rightarrow>
               (let m1 = send tr step_x step_y m
                in Inr (m1\<lparr>current_x := current_x m1 + step_x,
                           current_y := current_y m1 + step_y\<rparr>))))"

partial_function (option) goto_loop ::
  "int \<Rightarrow> transport \<Rightarrow> int \<Rightarrow> int \<Rightarrow> mouse \<Rightarrow> (py_error + mouse) option" where
  "goto_loop d tr x y m =
     (let dx = x - current_x m; dy = y - current_y m
      in if dx \<noteq> 0 \<or> dy \<noteq> 0
         then (case goto_body d tr dx dy m of
                 Inl e \<Rightarrow> Some (Inl e)
               | Inr m' \<Rightarrow> goto_loop d tr x y m')
         else Some (Inr m))"

definition goto :: "transport \<Rightarrow> int \<Rightarrow> int \<Rightarrow> mouse \<Rightarrow> (py_error + mouse) option" where
  "goto tr x y m = goto_loop FIXED_DELTA tr x y m"

text \<open>
  finetune.py keeps the remaining deltas in local variables and writes the tracked
  position once, after the loop.
\<close>

partial_function (option) goto_finetune_loop ::
  "int \<Rightarrow> transport \<Rightarrow> int \<Rightarrow> int \<Rightarrow> mouse \<Rightarrow> (py_error + mouse) option" where
  "goto_finetune_loop d tr dx dy m =
     (if dx \<noteq> 0 \<or> dy \<noteq> 0
      then (case axis_step d dx of
              Inl e \<Rightarrow> Some (Inl e)
            | Inr step_x \<Rightarrow>
                (case axis_step d dy of
                   Inl e \<Rightarrow> Some (Inl e)
                 | Inr step_y \<Rightarrow>
                     goto_finetune_loop d tr (dx - step_x) (dy - step_y) (send tr step_x step_y m)))
      else Some (Inr m))"

definition goto_finetune :: "transport \<Rightarrow> int \<Rightarrow> int \<Rightarrow> mouse \<Rightarrow> (py_error + mouse) option" where
  "goto_finetune tr x y m =
     (case goto_finetune_loop FIXED_DELTA_finetune tr (x - current_x m) (y - current_y m) m of
        None \<Rightarrow> None
      | Some (Inl e) \<Rightarrow> Some (Inl e)
      | Some (Inr m') \<Rightarrow> Some (Inr (m'\<lparr>current_x := x, current_y := y\<rparr>)))"

text \<open>
  The property of a train of steps that the claims on \<open>goto\<close> speak of: starting from
  \<open>(cx, cy)\<close>, a step is emitted exactly while the position differs from the target, each
  per-axis step has the sign of the remaining delta and the magnitude
  \<open>min \<bar>delta\<bar> d\<close>, and the position after the last step is the target.
\<close>

fun tracks :: "int \<Rightarrow> int \<times> int \<Rightarrow> int \<times> int \<Rightarrow> (int \<times> int) list \<Rightarrow> bool" where
  "tracks d (x, y) (cx, cy) [] = (cx = x \<and> cy = y)"
| "tracks d (x, y) (cx, cy) ((sx, sy) # ms) =
     ((cx \<noteq> x \<or> cy \<noteq> y) \<and>
      sgn sx = sgn (x - cx) \<and> \<bar>sx\<bar> = min \<bar>x - cx\<bar> d \<and>
      sgn sy = sgn (y - cy) \<and> \<bar>sy\<bar> = min \<bar>y - cy\<bar> d \<and>
      tracks d (x, y) (cx + sx, cy + sy) ms)"

definition origin :: mouse where
  \<comment> \<open>the controller after \<open>recalibrate_top_left\<close>, before anything was sent\<close>
  "origin = \<lparr>current_x = 0, current_y = 0, current_button = 0, sent = [], console = [], moves = []\<rparr>"

definition float_limit :: int where
  \<comment> \<open>the least magnitude that \<open>float\<close> refuses: halfway between the largest double,
      \<open>2^1024 - 2^971\<close>, and \<open>2^1024\<close>\<close>
  "float_limit = 2 ^ 1024 - 2 ^ 970"

section \<open>Word finder (solver.py and mouse/word_hunt_solver.py, identical code)\<close>

subsection \<open>Data\<close>

text \<open>
  The trie is the nested dict that build_trie pickles: a node maps a character to a child
  node, and the key \<open>$\<close> to \<open>True\<close>. A dict is an association list read with
  \<open>map_of\<close>; \<open>PyTrue\<close> is the value \<open>True\<close>. Characters are \<open>char\<close>, whose order
  (\<open>Char_ord\<close>) is the code-point order of Python on the code points below 256; strings
  compare lexicographically (\<open>List_Lexorder\<close>), as Python's \<open>str\<close> does.
\<close>

datatype trie = PyTrue | Dict "(char \<times> trie) list"

type_synonym pydict = "(char \<times> trie) list"

type_synonym position = "int \<times> int"

type_synonym board = "char list list"

definition SOLVER_NUMWORDS_LIMIT :: nat where
  "SOLVER_NUMWORDS_LIMIT = 500"

definition py_index :: "'a list \<Rightarrow> int \<Rightarrow> py_error + 'a" where
  \<comment> \<open>\<open>xs[i]\<close>: a negative index counts from the end, out of range raises IndexError\<close>
  "py_index xs i =
     (let n = int (length xs); j = (if i < 0 then i + n else i)
      in if 0 \<le> j \<and> j < n then Inr (xs ! nat j) else Inl IndexError)"

definition board_at :: "board \<Rightarrow> int \<Rightarrow> int \<Rightarrow> py_error + char" where
  \<comment> \<open>\<open>board[row][col]\<close>\<close>
  "board_at board row col =
     (case py_index board row of Inl e \<Rightarrow> Inl e | Inr r \<Rightarrow> py_index r col)"

subsection \<open>\<open>get_neighbors\<close>\<close>

text \<open>\<open>dfs\<close> calls \<open>get_neighbors(row, col)\<close> with the defaults \<open>num_rows = num_cols = 4\<close>.\<close>

definition get_neighbors_in :: "int \<Rightarrow> int \<Rightarrow> int \<Rightarrow> int \<Rightarrow> position list" where
  "get_neighbors_in row col num_rows num_cols =
     concat (map (\<lambda>dr. concat (map (\<lambda>dc.
       (let r = row + dr; c = col + dc
        in if (dr \<noteq> 0 \<or> dc \<noteq> 0) \<and> 0 \<le> r \<and> r < num_rows \<and> 0 \<le> c \<and> c < num_cols
           then [(r, c)] else [])) [- 1, 0, 1])) [- 1, 0, 1])"

definition get_neighbors :: "int \<Rightarrow> int \<Rightarrow> position list" where
  "get_neighbors row col = get_neighbors_in row col 4 4"

subsection \<open>\<open>dfs\<close>\<close>

text \<open>
  \<open>results\<close> and \<open>paths\<close> are the set and the dict that \<open>dfs\<close> mutates. \<open>discovered\<close> is a
  trace: every time the branch \<open>"$" in next_node and len(current_word) >= 3\<close> is taken,
  the word and the path at that moment are appended; it is what "first discovered" means.

  \<open>visited\<close> and \<open>current_path\<close> are restored by the callee before it returns
  (\<open>visited.remove\<close>, \<open>current_path.pop\<close>), and a callee is entered only on a cell that is
  not in \<open>visited\<close>; so the caller sees them unchanged, and the model passes them down
  as values.
\<close>

record solver_state =
  results :: "string set"
  paths :: "string \<rightharpoonup> position list"
  discovered :: "(string \<times> position list) list"

definition record_word :: "string \<Rightarrow> position list \<Rightarrow> solver_state \<Rightarrow> solver_state" where
  \<comment> \<open>\<open>results.add(w); if w not in paths: paths[w] = list(current_path)\<close>\<close>
  "record_word w p st =
     st\<lparr>results := insert w (results st),
        paths := (if paths st w = None then (paths st)(w \<mapsto> p) else paths st),
        discovered := discovered st @ [(w, p)]\<rparr>"

fun for_each :: "'a list \<Rightarrow> ('a \<Rightarrow> 's \<Rightarrow> py_error + 's) \<Rightarrow> 's \<Rightarrow> py_error + 's" where
  "for_each [] body s = Inr s"
| "for_each (x # xs) body s =
     (case body x s of Inl e \<Rightarrow> Inl e | Inr s' \<Rightarrow> for_each xs body s')"

lemma for_each_cong [fundef_cong]:
  assumes "xs = ys" and "s = t" and "\<And>x u. x \<in> set ys \<Longrightarrow> body x u = body' x u"
  shows "for_each xs body s = for_each ys body' t"
  using assms(3) unfolding assms(1,2)
  by (induction ys arbitrary: t) (auto split: sum.splits)

function dfs ::
  "int \<Rightarrow> int \<Rightarrow> board \<Rightarrow> pydict \<Rightarrow> position set \<Rightarrow> string \<Rightarrow> position list \<Rightarrow>
   solver_state \<Rightarrow> py_error + solver_state" where
  "dfs row col board node visited current_word current_path st =
     (case board_at board row col of
        Inl e \<Rightarrow> Inl e
      | Inr letter \<Rightarrow>
          (case map_of node letter of
             None \<Rightarrow> Inr st
           | Some PyTrue \<Rightarrow> Inl TypeError
           | Some (Dict next_node) \<Rightarrow>
               if next_node = [] then Inr st
               else
                 (let visited' = insert (row, col) visited;
                      word' = current_word @ [letter];
                      path' = current_path @ [(row, col)];
                      st' = (if CHR ''$'' \<in> fst ` set next_node \<and> 3 \<le> length word'
                             then record_word word' path' st else st)
                  in for_each (get_neighbors row col)
                       (\<lambda>n s. if n \<notin> visited'
                               then dfs (fst n) (snd n) board next_node visited' word' path' s
                               else Inr s)
                       st')))"
  by pat_completeness auto
termination
proof (relation "measure (\<lambda>(row, col, board, node, visited, w, p, st).
                   card (({0..3} \<times> {0..3}) - insert (row, col) visited))")
  show "wf (measure (\<lambda>(row, col, board, node, visited, w, p, st).
                   card (({0..3} \<times> {0..3}) - insert (row, col) visited)))"
    by simp
next
  fix row col :: int and visited :: "position set" and n :: position
    and board :: board and node :: pydict and current_word :: string
    and current_path :: "position list" and st u :: solver_state
    and letter :: char and x2 :: trie and next_node :: pydict
    and visited' word' path' st'
  assume v: "visited' = insert (row, col) visited"
    and n: "n \<in> set (get_neighbors row col)" and nv: "n \<notin> visited'"
  have "n \<in> {0..3} \<times> {0..3}"
    using n by (auto simp: get_neighbors_def get_neighbors_in_def Let_def split: if_splits)
  then have "n \<in> ({0..3} \<times> {0..3}) - insert (row, col) visited" using nv v by simp
  moreover have "finite (({0..3::int} \<times> {0..3::int}) - insert (row, col) visited)" by simp
  ultimately have "card (({0..3} \<times> {0..3}) - insert n (insert (row, col) visited))
        < card (({0..3} \<times> {0..3}) - insert (row, col) visited)"
    by (metis Diff_insert card_Diff1_less)
  then show "((fst n, snd n, board, next_node, visited', word', path', u),
              row, col, board, node, visited, current_word, current_path, st)
             \<in> measure (\<lambda>(row, col, board, node, visited, w, p, st).
                   card (({0..3} \<times> {0..3}) - insert (row, col) visited))"
    by (simp add: v)
qed

declare dfs.simps [simp del]

subsection \<open>\<open>find_words\<close>\<close>

record word_result =
  word :: string
  coordinates :: "position list"

definition board_letters :: "board \<Rightarrow> char set" where
  "board_letters board = (\<Union>row \<in> set board. set row)"

definition valid_starts :: "pydict \<Rightarrow> board \<Rightarrow> pydict" where
  "valid_starts trie board = filter (\<lambda>(ch, node). ch \<in> board_letters board) trie"

definition empty_state :: solver_state where
  "empty_state = \<lparr>results = {}, paths = Map.empty, discovered = []\<rparr>"

definition solve :: "board \<Rightarrow> pydict \<Rightarrow> py_error + solver_state" where
  \<comment> \<open>the two nested loops over \<open>range(len(board))\<close> and \<open>range(len(board[0]))\<close>\<close>
  "solve board trie =
     for_each [0..<length board]
       (\<lambda>row s. case py_index board 0 of
                   Inl e \<Rightarrow> Inl e
                 | Inr row0 \<Rightarrow>
                     for_each [0..<length row0]
                       (\<lambda>col s'. dfs (int row) (int col) board (valid_starts trie board) {} [] [] s')
                       s)
       empty_state"

text \<open>
  \<open>sorted(results, key=lambda w: (-len(w), w))\<close> iterates over a set, in an order that
  depends on the hash seed of the run. The iteration order is a parameter of the model:
  \<open>it S\<close> is the order in which the set \<open>S\<close> is iterated. \<open>iterates it S\<close> says that
  \<open>it\<close> lists exactly the elements of \<open>S\<close>, each once.
\<close>

definition iterates :: "('a set \<Rightarrow> 'a list) \<Rightarrow> 'a set \<Rightarrow> bool" where
  "iterates it S = (set (it S) = S \<and> distinct (it S))"

definition rank_key :: "string \<Rightarrow> int \<times> string" where
  \<comment> \<open>\<open>lambda w: (-len(w), w)\<close>\<close>
  "rank_key w = (- int (length w), w)"

fun lookup_paths :: "(string \<rightharpoonup> position list) \<Rightarrow> string list \<Rightarrow> py_error + word_result list" where
  \<comment> \<open>\<open>[{"word": word, "coordinates": paths[word]} for word in limited]\<close>\<close>
  "lookup_paths ps [] = Inr []"
| "lookup_paths ps (w # ws) =
     (case ps w of
        None \<Rightarrow> Inl KeyError
      | Some p \<Rightarrow>
          (case lookup_paths ps ws of
             Inl e \<Rightarrow> Inl e
           | Inr rs \<Rightarrow> Inr (\<lparr>word = w, coordinates = p\<rparr> # rs)))"

definition select_words :: "(string set \<Rightarrow> string list) \<Rightarrow> solver_state \<Rightarrow> py_error + word_result list" where
  "select_words it st =
     (let sorted_words = sort_key rank_key (it (results st));
          limited = take SOLVER_NUMWORDS_LIMIT sorted_words
      in lookup_paths (paths st) limited)"

definition find_words ::
  "(string set \<Rightarrow> string list) \<Rightarrow> board \<Rightarrow> pydict \<Rightarrow> py_error + word_result list" where
  "find_words it board trie =
     (case solve board trie of Inl e \<Rightarrow> Inl e | Inr st \<Rightarrow> select_words it st)"


subsection \<open>What a valid word result is\<close>

text \<open>
  \<open>valid_path board w p\<close>: every cell of \<open>p\<close> is a cell of the board, the letters of the
  board along \<open>p\<close> spell \<open>w\<close>, no cell occurs twice, and consecutive cells are
  8-adjacent.
\<close>

definition adjacent :: "position \<Rightarrow> position \<Rightarrow> bool" where
  "adjacent p q = (p \<noteq> q \<and> \<bar>fst p - fst q\<bar> \<le> 1 \<and> \<bar>snd p - snd q\<bar> \<le> 1)"

fun chain :: "position list \<Rightarrow> bool" where
  "chain [] = True"
| "chain [p] = True"
| "chain (p # q # ps) = (adjacent p q \<and> chain (q # ps))"

definition on_board :: "board \<Rightarrow> position \<Rightarrow> bool" where
  "on_board board p =
     (0 \<le> fst p \<and> fst p < int (length board) \<and>
      0 \<le> snd p \<and> snd p < int (length (board ! nat (fst p))))"

definition letter_at :: "board \<Rightarrow> position \<Rightarrow> char" where
  "letter_at board p = board ! nat (fst p) ! nat (snd p)"

definition valid_path :: "board \<Rightarrow> string \<Rightarrow> position list \<Rightarrow> bool" where
  "valid_path board w p =
     (list_all (on_board board) p \<and> map (letter_at board) p = w \<and> distinct p \<and> chain p)"

text \<open>
  The order of the result selector: a longer word ranks before a shorter one, and of two
  words of equal length the lexicographically smaller ranks first.
\<close>

definition ranks_before :: "string \<Rightarrow> string \<Rightarrow> bool" where
  "ranks_before a b = (length b < length a \<or> (length a = length b \<and> a < b))"

subsection \<open>Invariants of the search state\<close>

text \<open>
  \<open>all_valid\<close>: every discovery recorded so far is a valid path for its word.
  \<open>consistent\<close>: the dict \<open>paths\<close> maps a word to its first entry in the trace of
  discoveries, and \<open>results\<close> holds exactly the discovered words. \<open>extends\<close>: a later state
  only adds discoveries.
\<close>

definition all_valid :: "board \<Rightarrow> solver_state \<Rightarrow> bool" where
  "all_valid board st = (\<forall>(w, p) \<in> set (discovered st). valid_path board w p)"

definition consistent :: "solver_state \<Rightarrow> bool" where
  "consistent st = (paths st = map_of (discovered st) \<and> results st = fst ` set (discovered st))"

definition extends :: "solver_state \<Rightarrow> solver_state \<Rightarrow> bool" where
  "extends st st' = (\<exists>more. discovered st' = discovered st @ more)"


text \<open>
  \<open>first_discovery w ds\<close>: the path of the earliest entry for the word \<open>w\<close> in the trace
  of discoveries \<open>ds\<close>, if there is one.
\<close>

definition first_discovery :: "string \<Rightarrow> (string \<times> position list) list \<Rightarrow> position list option" where
  "first_discovery w ds =
     (case filter (\<lambda>(w', p). w' = w) ds of [] \<Rightarrow> None | (w', p) # later \<Rightarrow> Some p)"

subsection \<open>A board and a trie to run the word finder on\<close>

text \<open>
  The board \<open>thxq / heqq / qqqq / qqqq\<close> and the trie of the words \<open>the\<close> and \<open>hex\<close>.
  Each of the two words can be read along two paths, through either \<open>h\<close>.
\<close>

definition demo_board :: board where
  "demo_board = [''thxq'', ''heqq'', ''qqqq'', ''qqqq'']"

definition demo_trie :: pydict where
  "demo_trie =
     [(CHR ''t'', Dict [(CHR ''h'', Dict [(CHR ''e'', Dict [(CHR ''$'', PyTrue)])])]),
      (CHR ''h'', Dict [(CHR ''e'', Dict [(CHR ''x'', Dict [(CHR ''$'', PyTrue)])])])]"

definition demo_discovered :: "(string \<times> position list) list" where
  \<comment> \<open>the discoveries of the search on \<open>demo_board\<close>, in the order in which they are made\<close>
  "demo_discovered =
     [(''the'', [(0, 0), (0, 1), (1, 1)]),
      (''the'', [(0, 0), (1, 0), (1, 1)]),
      (''hex'', [(0, 1), (1, 1), (0, 2)]),
      (''hex'', [(1, 0), (1, 1), (0, 2)])]"

definition demo_state :: solver_state where
  \<comment> \<open>\<open>results\<close>, \<open>paths\<close> and the trace when the search on \<open>demo_board\<close> is over\<close>
  "demo_state =
     \<lparr>results = {''the'', ''hex''},
      paths = [''the'' \<mapsto> [(0, 0), (0, 1), (1, 1)], ''hex'' \<mapsto> [(0, 1), (1, 1), (0, 2)]],
      discovered = demo_discovered\<rparr>"

definition demo_out :: "word_result list" where
  "demo_out =
     [\<lparr>word = ''hex'', coordinates = [(0, 1), (1, 1), (0, 2)]\<rparr>,
      \<lparr>word = ''the'', coordinates = [(0, 0), (0, 1), (1, 1)]\<rparr>]"

definition sample_state :: solver_state where
  \<comment> \<open>a state with words of two lengths, to run the result selector on\<close>
  "sample_state =
     \<lparr>results = {''abd'', ''abcd'', ''abc''},
      paths = [''abd'' \<mapsto> [(0, 0), (0, 1), (1, 1)], ''abcd'' \<mapsto> [(0, 0), (0, 1), (0, 2), (1, 1)],
               ''abc'' \<mapsto> [(0, 0), (0, 1), (0, 2)]],
      discovered = []\<rparr>"

section \<open>Trie builder (mouse/build\_trie.py)\<close>

subsection \<open>The string methods \<open>strip\<close>, \<open>lower\<close> and \<open>isalpha\<close>\<close>

text \<open>
  On the code points below 256, which are the characters of \<open>char\<close>: Python's
  \<open>str.isspace\<close> holds of 9 to 13, 28 to 32, 133 and 160; \<open>str.isalpha\<close> holds of
  \<open>A\<close> to \<open>Z\<close>, \<open>a\<close> to \<open>z\<close>, 170, 181, 186, 192 to 214, 216 to 246 and 248 to 255;
  \<open>str.lower\<close> adds 32 to \<open>A\<close> to \<open>Z\<close>, to 192 to 214 and to 216 to 222, and leaves
  every other character.
\<close>

definition py_isspace_char :: "char \<Rightarrow> bool" where
  "py_isspace_char c =
     (let n = (of_char c :: nat)
      in (9 \<le> n \<and> n \<le> 13) \<or> (28 \<le> n \<and> n \<le> 32) \<or> n = 133 \<or> n = 160)"

definition py_isalpha_char :: "char \<Rightarrow> bool" where
  "py_isalpha_char c =
     (let n = (of_char c :: nat)
      in (65 \<le> n \<and> n \<le> 90) \<or> (97 \<le> n \<and> n \<le> 122) \<or> n = 170 \<or> n = 181 \<or> n = 186 \<or>
         (192 \<le> n \<and> n \<le> 214) \<or> (216 \<le> n \<and> n \<le> 246) \<or> (248 \<le> n \<and> n \<le> 255))"

definition py_lower_char :: "char \<Rightarrow> char" where
  "py_lower_char c =
     (let n = (of_char c :: nat)
      in if (65 \<le> n \<and> n \<le> 90) \<or> (192 \<le> n \<and> n \<le> 214) \<or> (216 \<le> n \<and> n \<le> 222)
         then char_of (n + 32) else c)"

definition py_strip :: "string \<Rightarrow> string" where
  "py_strip s = rev (dropWhile py_isspace_char (rev (dropWhile py_isspace_char s)))"

definition py_lower :: "string \<Rightarrow> string" where
  "py_lower s = map py_lower_char s"

definition py_isalpha :: "string \<Rightarrow> bool" where
  \<comment> \<open>\<open>str.isalpha\<close> is false of the empty string\<close>
  "py_isalpha s = (s \<noteq> [] \<and> list_all py_isalpha_char s)"

subsection \<open>Insertion\<close>

text \<open>
  \<open>dict_set k v d\<close> is the assignment \<open>d[k] = v\<close>: the value of an existing key is
  replaced where it stands, a new key goes to the end.
\<close>

fun dict_set :: "'k \<Rightarrow> 'v \<Rightarrow> ('k \<times> 'v) list \<Rightarrow> ('k \<times> 'v) list" where
  "dict_set k v [] = [(k, v)]"
| "dict_set k v ((k', v') # d) = (if k' = k then (k, v) # d else (k', v') # dict_set k v d)"

text \<open>
  The loop \<open>node = trie; for char in word: ...; node = node[char]\<close> followed by
  \<open>node['$'] = True\<close> walks down the nested dicts and changes them in place.
  \<open>insert_word word node\<close> returns the dict \<open>node\<close> after the walk that starts in it.
  A key that holds \<open>True\<close> makes the next step raise TypeError (\<open>char not in True\<close>,
  or \<open>True['$'] = True\<close>).
\<close>

fun insert_word :: "string \<Rightarrow> pydict \<Rightarrow> py_error + pydict" where
  "insert_word [] node = Inr (dict_set (CHR ''$'') PyTrue node)"
| "insert_word (c # cs) node =
     (case map_of node c of
        None \<Rightarrow>
          (case insert_word cs [] of
             Inl e \<Rightarrow> Inl e
           | Inr child \<Rightarrow> Inr (dict_set c (Dict child) node))
      | Some PyTrue \<Rightarrow> Inl TypeError
      | Some (Dict child) \<Rightarrow>
          (case insert_word cs child of
             Inl e \<Rightarrow> Inl e
           | Inr child' \<Rightarrow> Inr (dict_set c (Dict child') node)))"

subsection \<open>\<open>build_trie\<close>\<close>

text \<open>
  The input is the list of the lines of the word file. The result is the trie that is
  pickled and the count of processed words that is printed.
\<close>

fun build_loop :: "string list \<Rightarrow> pydict \<Rightarrow> nat \<Rightarrow> py_error + pydict \<times> nat" where
  "build_loop [] trie count = Inr (trie, count)"
| "build_loop (line # rest) trie count =
     (let word = py_lower (py_strip line)
      in if word = [] \<or> \<not> py_isalpha word then build_loop rest trie count
         else if length word < 3 then build_loop rest trie count
         else (case insert_word word trie of
                 Inl e \<Rightarrow> Inl e
               | Inr trie' \<Rightarrow> build_loop rest trie' (count + 1)))"

definition build_trie :: "string list \<Rightarrow> py_error + pydict \<times> nat" where
  "build_trie lines = build_loop lines [] 0"

subsection \<open>What the builder is to do\<close>

text \<open>
  \<open>accepted w\<close> and \<open>accepted_words\<close> follow the words of the specification: a candidate
  is rejected if it is empty, if it contains a non-alphabetic character, or if it is
  shorter than 3. \<open>spells node w\<close>: in the trie \<open>node\<close> the keys \<open>w\<close> lead from the root to a
  node that carries the terminal mark \<open>$\<close>.
\<close>

definition accepted :: "string \<Rightarrow> bool" where
  "accepted w = (w \<noteq> [] \<and> list_all py_isalpha_char w \<and> 3 \<le> length w)"

definition accepted_words :: "string list \<Rightarrow> string list" where
  "accepted_words lines = filter accepted (map (\<lambda>line. py_lower (py_strip line)) lines)"

fun spells :: "pydict \<Rightarrow> string \<Rightarrow> bool" where
  "spells node [] = (CHR ''$'' \<in> fst ` set node)"
| "spells node (c # cs) =
     (case map_of node c of Some (Dict child) \<Rightarrow> spells child cs | _ \<Rightarrow> False)"

text \<open>
  \<open>well_formed\<close>: the key \<open>$\<close>, and no other key, holds \<open>True\<close>, in every dict of the trie.
\<close>

fun well_formed :: "trie \<Rightarrow> bool" where
  "well_formed PyTrue = True"
| "well_formed (Dict d) = (\<forall>(k, t) \<in> set d. (t = PyTrue \<longleftrightarrow> k = CHR ''$'') \<and> well_formed t)"

definition word_file :: "string list" where
  \<comment> \<open>lines of a word file: two good words, one of them twice, and four that are skipped\<close>
  "word_file = [''The'', '' hex '', ''ab'', ''a1c'', '''', ''it's'', ''the'']"

section \<open>Proofs\<close>


lemma ulp_exp_small: "n < 2 ^ 53 \<Longrightarrow> ulp_exp n = 0"
  by (subst ulp_exp.simps) simp

lemma ulp_exp_quot: "n div 2 ^ ulp_exp n < 2 ^ 53"
proof (induction n rule: ulp_exp.induct)
  case (1 n)
  show ?case
  proof (cases "n < 2 ^ 53")
    case True
    then show ?thesis by (simp add: ulp_exp_small)
  next
    case False
    then have "ulp_exp n = Suc (ulp_exp (n div 2))" by (subst ulp_exp.simps) simp
    moreover have "n div 2 div 2 ^ ulp_exp (n div 2) < 2 ^ 53" using 1 False by simp
    ultimately show ?thesis by (simp add: div_mult2_eq)
  qed
qed

lemma ulp_exp_quot_pos: "0 < n \<Longrightarrow> 0 < n div 2 ^ ulp_exp n"
proof (induction n rule: ulp_exp.induct)
  case (1 n)
  show ?case
  proof (cases "n < 2 ^ 53")
    case True
    then show ?thesis using 1 by (simp add: ulp_exp_small)
  next
    case False
    then have e: "ulp_exp n = Suc (ulp_exp (n div 2))" by (subst ulp_exp.simps) simp
    have "0 < n div 2" using False by simp
    then have "0 < n div 2 div 2 ^ ulp_exp (n div 2)" using 1 False by simp
    then show ?thesis using e by (simp add: div_mult2_eq)
  qed
qed

lemma ulp_exp_quot_big: "2 ^ 53 \<le> n \<Longrightarrow> 2 \<le> n div 2 ^ ulp_exp n"
proof (induction n rule: ulp_exp.induct)
  case (1 n)
  then have e: "ulp_exp n = Suc (ulp_exp (n div 2))" by (subst ulp_exp.simps) simp
  show ?case
  proof (cases "n div 2 < 2 ^ 53")
    case True
    then have "ulp_exp (n div 2) = 0" by (simp add: ulp_exp_small)
    then show ?thesis using e 1(2) by simp
  next
    case False
    then have "2 \<le> n div 2 div 2 ^ ulp_exp (n div 2)" using 1 by simp
    then show ?thesis using e by (simp add: div_mult2_eq)
  qed
qed

lemma round_to_double_small: "n < 2 ^ 53 \<Longrightarrow> round_to_double n = n"
  by (simp add: round_to_double_def ulp_exp_small)

lemma round_to_double_bounds:
  assumes "0 < n"
  shows "0 < round_to_double n \<and> round_to_double n < 2 * n"
proof (cases "n < 2 ^ 53")
  case True
  then show ?thesis using assms by (simp add: round_to_double_small)
next
  case False
  define e where "e = ulp_exp n"
  define q where "q = n div 2 ^ e"
  define a where "a = q * 2 ^ e"
  define b where "b = (q + 1) * 2 ^ e"
  have q2: "2 \<le> q" using False ulp_exp_quot_big [of n] by (simp add: q_def e_def)
  have lo: "a \<le> n" unfolding a_def q_def by simp
  have rd: "round_to_double n = a \<or> round_to_double n = b"
    by (simp add: round_to_double_def Let_def q_def e_def a_def b_def)
  have pos: "0 < a" using q2 by (simp add: a_def)
  have "q + 1 < 2 * q" using q2 by simp
  then have "(q + 1) * 2 ^ e < (2 * q) * 2 ^ e" by simp
  then have hi: "b < 2 * a" by (simp add: a_def b_def)
  have "a \<le> b" by (simp add: a_def b_def)
  then show ?thesis using rd pos hi lo by linarith
qed


lemma py_float_small: "\<bar>n\<bar> < 2 ^ 53 \<Longrightarrow> py_float n = Inr n"
proof -
  assume a: "\<bar>n\<bar> < 2 ^ 53"
  then have "nat \<bar>n\<bar> < 2 ^ 53" by (simp add: nat_less_iff)
  then have r: "round_to_double (nat \<bar>n\<bar>) = nat \<bar>n\<bar>" by (rule round_to_double_small)
  have "\<bar>n\<bar> < 2 ^ 1024" using a by (rule less_trans) simp
  then have "\<not> (2 ^ 1024 \<le> nat \<bar>n\<bar>)" by (simp add: nat_less_iff not_le)
  moreover have "sgn n * int (nat \<bar>n\<bar>) = n" by (simp add: mult_sgn_abs)
  ultimately show ?thesis by (simp add: py_float_def r)
qed

lemma py_float_Inr:
  assumes "py_float n = Inr v" and "n \<noteq> 0"
  shows "sgn v = sgn n \<and> 0 < \<bar>v\<bar> \<and> \<bar>v\<bar> < 2 * \<bar>n\<bar>"
proof -
  define m where "m = round_to_double (nat \<bar>n\<bar>)"
  have v: "v = sgn n * int m" using assms(1)
    by (simp add: py_float_def Let_def m_def split: if_splits)
  have "0 < nat \<bar>n\<bar>" using assms(2) by simp
  then have b: "0 < m \<and> m < 2 * nat \<bar>n\<bar>" unfolding m_def by (rule round_to_double_bounds)
  then have "\<bar>v\<bar> = int m" using assms(2) by (simp add: v abs_mult)
  moreover have "sgn v = sgn n" using b assms(2) by (simp add: v sgn_mult)
  ultimately show ?thesis using b by auto
qed

lemma py_float_fits:
  assumes "\<bar>n\<bar> < 2 ^ 1023"
  shows "\<exists>v. py_float n = Inr v"
proof (cases "n = 0")
  case True
  then show ?thesis by (simp add: py_float_small)
next
  case False
  then have "0 < nat \<bar>n\<bar>" by simp
  then have "round_to_double (nat \<bar>n\<bar>) < 2 * nat \<bar>n\<bar>"
    using round_to_double_bounds by blast
  moreover have "2 * nat \<bar>n\<bar> < 2 * 2 ^ 1023" using assms by (simp add: nat_less_iff)
  ultimately have "round_to_double (nat \<bar>n\<bar>) < 2 ^ 1024" by simp
  then show ?thesis by (simp add: py_float_def Let_def not_le [symmetric])
qed

lemma axis_step_zero: "axis_step d 0 = Inr 0"
  by (simp add: axis_step_def)

lemma axis_step_Inr:
  assumes "0 < d" and "dx \<noteq> 0" and "axis_step d dx = Inr s"
  shows "sgn s = sgn dx \<and> 0 < \<bar>s\<bar> \<and> \<bar>s\<bar> < 2 * \<bar>dx\<bar>"
proof -
  define a where "a = min \<bar>dx\<bar> d"
  have apos: "0 < a" and ale: "a \<le> \<bar>dx\<bar>" using assms(1,2) by (auto simp: a_def)
  from assms(2,3) obtain fa fb where fa: "py_float a = Inr fa" and fb: "py_float dx = Inr fb"
    and s: "s = (if fb < 0 then - \<bar>fa\<bar> else \<bar>fa\<bar>)"
    by (auto simp: axis_step_def int_copysign_def a_def split: sum.splits)
  have A: "0 < \<bar>fa\<bar> \<and> \<bar>fa\<bar> < 2 * a" using py_float_Inr [OF fa] apos by auto
  have B: "sgn fb = sgn dx" using py_float_Inr [OF fb assms(2)] by simp
  have "fb < 0 \<longleftrightarrow> dx < 0" using B assms(2) by (metis sgn_less)
  then have "sgn s = sgn dx" using A assms(2) by (auto simp: s)
  moreover have "\<bar>s\<bar> = \<bar>fa\<bar>" by (simp add: s)
  ultimately show ?thesis using A ale by auto
qed

lemma axis_step_exact:
  assumes "0 < d" and "d < 2 ^ 53" and "py_float dx = Inr fb"
  shows "axis_step d dx = Inr (sgn dx * min \<bar>dx\<bar> d)"
proof (cases "dx = 0")
  case True
  then show ?thesis by (simp add: axis_step_def)
next
  case False
  define a where "a = min \<bar>dx\<bar> d"
  have "\<bar>a\<bar> < 2 ^ 53" using assms(1,2) by (auto simp: a_def)
  then have fa: "py_float a = Inr a" by (rule py_float_small)
  have apos: "0 < a" using assms(1) False by (auto simp: a_def)
  have "sgn fb = sgn dx" using py_float_Inr [OF assms(3) False] by simp
  then have "fb < 0 \<longleftrightarrow> dx < 0" using False by (metis sgn_less)
  then have "(if fb < 0 then - \<bar>a\<bar> else \<bar>a\<bar>) = sgn dx * a" using apos False by auto
  then show ?thesis using False fa assms(3)
    by (simp add: axis_step_def int_copysign_def a_def [symmetric])
qed

lemma axis_step_decrease:
  assumes "0 < d" and "axis_step d dx = Inr s"
  shows "(dx = 0 \<longrightarrow> s = 0) \<and> (dx \<noteq> 0 \<longrightarrow> \<bar>dx - s\<bar> < \<bar>dx\<bar>)"
proof (cases "dx = 0")
  case True
  then show ?thesis using assms(2) by (simp add: axis_step_def)
next
  case False
  from axis_step_Inr [OF assms(1) False assms(2)]
  have "sgn s = sgn dx" and "0 < \<bar>s\<bar>" and "\<bar>s\<bar> < 2 * \<bar>dx\<bar>" by auto
  then have "\<bar>dx - s\<bar> < \<bar>dx\<bar>"
    by (cases "dx < 0") (auto simp: sgn_if split: if_splits)
  then show ?thesis using False by simp
qed

lemma send_fields [simp]:
  "current_x (send tr a b m) = current_x m"
  "current_y (send tr a b m) = current_y m"
  "current_button (send tr a b m) = current_button m"
  "moves (send tr a b m) = moves m @ [(a, b)]"
  by (simp_all add: send_def send_current_def Let_def)

lemma goto_body_Inr:
  assumes "goto_body d tr dx dy m = Inr m'"
  shows "\<exists>sx sy. axis_step d dx = Inr sx \<and> axis_step d dy = Inr sy \<and>
           current_x m' = current_x m + sx \<and> current_y m' = current_y m + sy \<and>
           current_button m' = current_button m \<and> moves m' = moves m @ [(sx, sy)]"
  using assms by (auto simp: goto_body_def Let_def split: sum.splits)

lemma goto_body_decrease:
  assumes "0 < d" and "goto_body d tr (x - current_x m) (y - current_y m) m = Inr m'"
  shows "(x = current_x m \<longrightarrow> current_x m' = x) \<and>
         (x \<noteq> current_x m \<longrightarrow> \<bar>x - current_x m'\<bar> < \<bar>x - current_x m\<bar>) \<and>
         (y = current_y m \<longrightarrow> current_y m' = y) \<and>
         (y \<noteq> current_y m \<longrightarrow> \<bar>y - current_y m'\<bar> < \<bar>y - current_y m\<bar>)"
proof -
  from goto_body_Inr [OF assms(2)] obtain sx sy where
    sx: "axis_step d (x - current_x m) = Inr sx" and sy: "axis_step d (y - current_y m) = Inr sy"
    and cx: "current_x m' = current_x m + sx" and cy: "current_y m' = current_y m + sy"
    by blast
  from axis_step_decrease [OF assms(1) sx] axis_step_decrease [OF assms(1) sy]
  show ?thesis by (auto simp: cx cy algebra_simps)
qed

lemma goto_loop_total:
  assumes "0 < d"
  shows "\<exists>r. goto_loop d tr x y m = Some r \<and>
           (\<forall>m'. r = Inr m' \<longrightarrow> current_x m' = x \<and> current_y m' = y)"
proof (induction "nat (\<bar>x - current_x m\<bar> + \<bar>y - current_y m\<bar>)" arbitrary: m rule: less_induct)
  case less
  show ?case
  proof (cases "x - current_x m \<noteq> 0 \<or> y - current_y m \<noteq> 0")
    case False
    then show ?thesis by (subst goto_loop.simps) simp
  next
    case True
    show ?thesis
    proof (cases "goto_body d tr (x - current_x m) (y - current_y m) m")
      case (Inl e)
      then show ?thesis using True by (subst goto_loop.simps) simp
    next
      case (Inr m1)
      from goto_body_decrease [OF assms Inr] True
      have "nat (\<bar>x - current_x m1\<bar> + \<bar>y - current_y m1\<bar>)
              < nat (\<bar>x - current_x m\<bar> + \<bar>y - current_y m\<bar>)"
        by (cases "x = current_x m"; cases "y = current_y m") auto
      from less [OF this] have "\<exists>r. goto_loop d tr x y m1 = Some r \<and>
           (\<forall>m'. r = Inr m' \<longrightarrow> current_x m' = x \<and> current_y m' = y)" .
      moreover have "goto_loop d tr x y m = goto_loop d tr x y m1"
        using True Inr by (subst goto_loop.simps) (simp add: Let_def)
      ultimately show ?thesis by simp
    qed
  qed
qed

lemma axis_step_value:
  assumes "0 < d" and "d < 2 ^ 53" and "axis_step d dx = Inr s"
  shows "s = sgn dx * min \<bar>dx\<bar> d"
proof (cases "dx = 0")
  case True
  then show ?thesis using assms(3) by (simp add: axis_step_def)
next
  case False
  then obtain fb where "py_float dx = Inr fb" using assms(3)
    by (auto simp: axis_step_def int_copysign_def split: sum.splits)
  from axis_step_exact [OF assms(1,2) this] assms(3) show ?thesis by simp
qed

lemma axis_step_sgn_abs:
  assumes "0 < d" and "d < 2 ^ 53" and "axis_step d dx = Inr s"
  shows "sgn s = sgn dx \<and> \<bar>s\<bar> = min \<bar>dx\<bar> d"
proof -
  have s: "s = sgn dx * min \<bar>dx\<bar> d" using assms by (rule axis_step_value)
  have "0 \<le> min \<bar>dx\<bar> d" using assms(1) by simp
  then have "\<bar>s\<bar> = min \<bar>dx\<bar> d" by (cases "dx = 0") (simp_all add: s abs_mult)
  moreover have "sgn s = sgn dx" using assms(1) by (cases "dx = 0") (simp_all add: s sgn_mult)
  ultimately show ?thesis by simp
qed

lemma axis_step_fits:
  assumes "\<bar>dx\<bar> < 2 ^ 1023" and "0 < d"
  shows "\<exists>s. axis_step d dx = Inr s"
proof (cases "dx = 0")
  case True
  then show ?thesis by (simp add: axis_step_def)
next
  case False
  have "\<bar>min \<bar>dx\<bar> d\<bar> < 2 ^ 1023" using assms by auto
  then obtain fa where "py_float (min \<bar>dx\<bar> d) = Inr fa" using py_float_fits by blast
  moreover obtain fb where "py_float dx = Inr fb" using py_float_fits [OF assms(1)] by blast
  ultimately show ?thesis using False by (simp add: axis_step_def int_copysign_def)
qed

lemma goto_loop_fits:
  assumes "0 < d"
  shows "\<bar>x - current_x m\<bar> < 2 ^ 1023 \<Longrightarrow> \<bar>y - current_y m\<bar> < 2 ^ 1023 \<Longrightarrow>
         \<exists>m'. goto_loop d tr x y m = Some (Inr m')"
proof (induction "nat (\<bar>x - current_x m\<bar> + \<bar>y - current_y m\<bar>)" arbitrary: m rule: less_induct)
  case less
  show ?case
  proof (cases "x - current_x m \<noteq> 0 \<or> y - current_y m \<noteq> 0")
    case False
    then show ?thesis by (subst goto_loop.simps) simp
  next
    case True
    obtain sx where sx: "axis_step d (x - current_x m) = Inr sx"
      using axis_step_fits [OF less.prems(1) assms] by blast
    obtain sy where sy: "axis_step d (y - current_y m) = Inr sy"
      using axis_step_fits [OF less.prems(2) assms] by blast
    obtain m1 where m1: "goto_body d tr (x - current_x m) (y - current_y m) m = Inr m1"
      using sx sy by (simp add: goto_body_def Let_def)
    from goto_body_decrease [OF assms m1] True
    have dec: "nat (\<bar>x - current_x m1\<bar> + \<bar>y - current_y m1\<bar>)
              < nat (\<bar>x - current_x m\<bar> + \<bar>y - current_y m\<bar>)"
      by (cases "x = current_x m"; cases "y = current_y m") auto
    from goto_body_decrease [OF assms m1] less.prems
    have b: "\<bar>x - current_x m1\<bar> < 2 ^ 1023" "\<bar>y - current_y m1\<bar> < 2 ^ 1023"
      by (cases "x = current_x m"; cases "y = current_y m"; simp)+
    from less.hyps [OF dec b] obtain m' where "goto_loop d tr x y m1 = Some (Inr m')" by blast
    moreover have "goto_loop d tr x y m = goto_loop d tr x y m1"
      using True m1 by (subst goto_loop.simps) (simp add: Let_def)
    ultimately show ?thesis by simp
  qed
qed

lemma goto_loop_tracks:
  assumes "0 < d" and "d < 2 ^ 53"
  shows "goto_loop d tr x y m = Some (Inr m') \<Longrightarrow>
         \<exists>ms. moves m' = moves m @ ms \<and> tracks d (x, y) (current_x m, current_y m) ms \<and>
              current_button m' = current_button m"
proof (induction "nat (\<bar>x - current_x m\<bar> + \<bar>y - current_y m\<bar>)" arbitrary: m rule: less_induct)
  case less
  show ?case
  proof (cases "x - current_x m \<noteq> 0 \<or> y - current_y m \<noteq> 0")
    case False
    then have "goto_loop d tr x y m = Some (Inr m)" by (subst goto_loop.simps) simp
    then have "m' = m" using less.prems by simp
    then show ?thesis using False by simp
  next
    case True
    from True less.prems obtain m1 where
      m1: "goto_body d tr (x - current_x m) (y - current_y m) m = Inr m1"
      and run: "goto_loop d tr x y m1 = Some (Inr m')"
      by (subst (asm) goto_loop.simps) (auto simp: Let_def split: sum.splits)
    from goto_body_Inr [OF m1] obtain sx sy where
      sx: "axis_step d (x - current_x m) = Inr sx" and sy: "axis_step d (y - current_y m) = Inr sy"
      and cx: "current_x m1 = current_x m + sx" and cy: "current_y m1 = current_y m + sy"
      and bt: "current_button m1 = current_button m" and mv: "moves m1 = moves m @ [(sx, sy)]"
      by blast
    from goto_body_decrease [OF assms(1) m1] True
    have dec: "nat (\<bar>x - current_x m1\<bar> + \<bar>y - current_y m1\<bar>)
              < nat (\<bar>x - current_x m\<bar> + \<bar>y - current_y m\<bar>)"
      by (cases "x = current_x m"; cases "y = current_y m") auto
    from less.hyps [OF dec run] obtain ms where
      ms: "moves m' = moves m1 @ ms" "tracks d (x, y) (current_x m1, current_y m1) ms"
          "current_button m' = current_button m1"
      by blast
    have "tracks d (x, y) (current_x m, current_y m) ((sx, sy) # ms)"
      using True ms(2) axis_step_sgn_abs [OF assms sx] axis_step_sgn_abs [OF assms sy]
      by (auto simp: cx cy)
    then show ?thesis using ms mv bt by auto
  qed
qed

lemma tracks_bounded:
  "0 < d \<Longrightarrow> tracks d (x, y) (cx, cy) ms \<Longrightarrow> \<forall>(sx, sy) \<in> set ms. \<bar>sx\<bar> \<le> d \<and> \<bar>sy\<bar> \<le> d"
proof (induction ms arbitrary: cx cy)
  case Nil
  then show ?case by simp
next
  case (Cons s ms)
  obtain sx sy where s: "s = (sx, sy)" by (cases s)
  from Cons.prems(2) have t: "tracks d (x, y) (cx + sx, cy + sy) ms"
    and b: "\<bar>sx\<bar> = min \<bar>x - cx\<bar> d" "\<bar>sy\<bar> = min \<bar>y - cy\<bar> d"
    by (simp_all add: s)
  from Cons.IH [OF Cons.prems(1) t] b show ?case by (simp add: s)
qed

lemma goto_finetune_loop_total:
  assumes "0 < d"
  shows "\<exists>r. goto_finetune_loop d tr dx dy m = Some r"
proof (induction "nat (\<bar>dx\<bar> + \<bar>dy\<bar>)" arbitrary: dx dy m rule: less_induct)
  case less
  show ?case
  proof (cases "dx \<noteq> 0 \<or> dy \<noteq> 0")
    case False
    then show ?thesis by (subst goto_finetune_loop.simps) simp
  next
    case True
    show ?thesis
    proof (cases "axis_step d dx")
      case (Inl e)
      then show ?thesis using True by (subst goto_finetune_loop.simps) simp
    next
      case sx: (Inr sx)
      show ?thesis
      proof (cases "axis_step d dy")
        case (Inl e)
        then show ?thesis using True sx by (subst goto_finetune_loop.simps) simp
      next
        case sy: (Inr sy)
        from axis_step_decrease [OF assms sx] axis_step_decrease [OF assms sy] True
        have "nat (\<bar>dx - sx\<bar> + \<bar>dy - sy\<bar>) < nat (\<bar>dx\<bar> + \<bar>dy\<bar>)"
          by (cases "dx = 0"; cases "dy = 0") auto
        from less [OF this] obtain r where
          "goto_finetune_loop d tr (dx - sx) (dy - sy) (send tr sx sy m) = Some r" by blast
        then show ?thesis using True sx sy by (subst goto_finetune_loop.simps) simp
      qed
    qed
  qed
qed

lemma goto_finetune_loop_fits:
  assumes "0 < d"
  shows "\<bar>dx\<bar> < 2 ^ 1023 \<Longrightarrow> \<bar>dy\<bar> < 2 ^ 1023 \<Longrightarrow>
         \<exists>m'. goto_finetune_loop d tr dx dy m = Some (Inr m')"
proof (induction "nat (\<bar>dx\<bar> + \<bar>dy\<bar>)" arbitrary: dx dy m rule: less_induct)
  case less
  show ?case
  proof (cases "dx \<noteq> 0 \<or> dy \<noteq> 0")
    case False
    then show ?thesis by (subst goto_finetune_loop.simps) simp
  next
    case True
    obtain sx where sx: "axis_step d dx = Inr sx"
      using axis_step_fits [OF less.prems(1) assms] by blast
    obtain sy where sy: "axis_step d dy = Inr sy"
      using axis_step_fits [OF less.prems(2) assms] by blast
    from axis_step_decrease [OF assms sx] axis_step_decrease [OF assms sy] True
    have dec: "nat (\<bar>dx - sx\<bar> + \<bar>dy - sy\<bar>) < nat (\<bar>dx\<bar> + \<bar>dy\<bar>)"
      by (cases "dx = 0"; cases "dy = 0") auto
    from axis_step_decrease [OF assms sx] axis_step_decrease [OF assms sy] less.prems
    have b: "\<bar>dx - sx\<bar> < 2 ^ 1023" "\<bar>dy - sy\<bar> < 2 ^ 1023"
      by (cases "dx = 0"; cases "dy = 0"; simp)+
    from less.hyps [OF dec b] obtain m' where
      "goto_finetune_loop d tr (dx - sx) (dy - sy) (send tr sx sy m) = Some (Inr m')" by blast
    then show ?thesis using True sx sy by (subst goto_finetune_loop.simps) simp
  qed
qed

lemma ulp_exp_pow2: "ulp_exp (2 ^ (52 + j)) = j"
proof (induction j)
  case 0
  show ?case by (simp add: ulp_exp_small)
next
  case (Suc j)
  have "(2::nat) ^ 53 \<le> 2 ^ (52 + Suc j)" by (rule power_increasing) simp_all
  then have "\<not> (2::nat) ^ (52 + Suc j) < 2 ^ 53" by (simp only: not_less)
  then have "ulp_exp (2 ^ (52 + Suc j)) = Suc (ulp_exp (2 ^ (52 + Suc j) div 2))"
    by (subst ulp_exp.simps) (simp only: if_False)
  moreover have "(2::nat) ^ (52 + Suc j) div 2 = 2 ^ (52 + j)"
    unfolding add_Suc_right power_Suc by (rule nonzero_mult_div_cancel_left) simp
  ultimately show ?case using Suc by simp
qed

lemma round_to_double_pow2: "round_to_double (2 ^ (52 + j)) = 2 ^ (52 + j)"
proof -
  define a :: nat where "a = 2 ^ 52"
  have p: "(2::nat) ^ (52 + j) = a * 2 ^ j" by (simp only: a_def power_add)
  have "even a" by (simp add: a_def)
  then show ?thesis
    by (simp add: round_to_double_def ulp_exp_pow2 Let_def) (simp add: p)
qed

lemma py_float_overflow: "py_float (2 ^ 1024) = Inl OverflowError"
proof -
  define big :: nat where "big = 2 ^ (52 + 972)"
  have "round_to_double big = big" unfolding big_def by (rule round_to_double_pow2)
  moreover have "nat \<bar>2 ^ 1024 :: int\<bar> = big" by (simp add: big_def)
  moreover have "(2::nat) ^ 1024 \<le> big" by (simp add: big_def)
  ultimately show ?thesis by (simp only: py_float_def Let_def if_True)
qed

lemma py_float_Inl: "py_float n = Inl e \<Longrightarrow> e = OverflowError"
  by (simp add: py_float_def Let_def split: if_splits)

lemma axis_step_overflow:
  assumes "dx \<noteq> 0" and "py_float dx = Inl e"
  shows "axis_step d dx = Inl OverflowError"
proof (cases "py_float (min \<bar>dx\<bar> d)")
  case (Inl e')
  then show ?thesis using assms(1) py_float_Inl [OF Inl] by (simp add: axis_step_def int_copysign_def)
next
  case (Inr fa)
  then show ?thesis using assms py_float_Inl [OF assms(2)]
    by (simp add: axis_step_def int_copysign_def)
qed

lemma goto_loop_overflow:
  assumes "x - current_x m \<noteq> 0" and "py_float (x - current_x m) = Inl e"
  shows "goto_loop d tr x y m = Some (Inl OverflowError)"
  using assms(1) axis_step_overflow [OF assms]
  by (subst goto_loop.simps) (simp add: goto_body_def Let_def)

lemma goto_overflow_cex: "goto (\<lambda>n. True) (2 ^ 1024) 0 origin = Some (Inl OverflowError)"
proof -
  have x: "2 ^ 1024 - current_x origin = 2 ^ 1024" by (simp add: origin_def)
  have "2 ^ 1024 - current_x origin \<noteq> 0" by (simp add: origin_def)
  moreover have "py_float (2 ^ 1024 - current_x origin) = Inl OverflowError"
    by (simp only: x py_float_overflow)
  ultimately show ?thesis unfolding goto_def by (rule goto_loop_overflow)
qed

lemma goto_example:
  "\<exists>m'. goto tr 250 (- 40) origin = Some (Inr m') \<and> current_x m' = 250 \<and> current_y m' = - 40 \<and>
     length (moves m') = 25 \<and>
     length (filter (\<lambda>(sx, sy). sx \<noteq> 0) (moves m')) = 25 \<and>
     length (filter (\<lambda>(sx, sy). sy \<noteq> 0) (moves m')) = 4"
proof -
  have st: "axis_step 10 dx = Inr (sgn dx * min \<bar>dx\<bar> 10)" if "\<bar>dx\<bar> < 2 ^ 53" for dx
    using axis_step_exact [of 10 dx dx] py_float_small [OF that] by simp
  show ?thesis
    unfolding goto_def FIXED_DELTA_def
    by (simp add: goto_loop.simps goto_body_def st origin_def Let_def)
qed

lemma goto_loop_done:
  "current_x m = x \<Longrightarrow> current_y m = y \<Longrightarrow> goto_loop d tr x y m = Some (Inr m)"
  by (subst goto_loop.simps) simp

lemma goto_loop_step:
  "x \<noteq> current_x m \<or> y \<noteq> current_y m \<Longrightarrow>
   goto_body d tr (x - current_x m) (y - current_y m) m = Inr m1 \<Longrightarrow>
   goto_loop d tr x y m = goto_loop d tr x y m1"
  by (subst goto_loop.simps) (auto simp: Let_def)

lemma axis_step_small:
  "\<bar>dx\<bar> < 2 ^ 53 \<Longrightarrow> axis_step 10 dx = Inr (sgn dx * min \<bar>dx\<bar> 10)"
  using axis_step_exact [of 10 dx dx] py_float_small [of dx] by simp

text \<open>
  Claim C2. For every starting position and every integer target, with the maximum step
  size \<open>FIXED_DELTA = 10\<close>: whenever \<open>goto\<close> returns, the steps it emitted follow
  \<open>tracks\<close> (each per-axis step has the sign of the remaining delta and the magnitude
  \<open>min \<bar>delta\<bar> 10\<close>, so both axes move in the same tick while both deltas are nonzero),
  no per-axis magnitude exceeds 10, and the tracked position is the target. \<open>goto\<close>
  returns whenever both deltas are below \<open>2^1023\<close> in magnitude. From (0, 0) to
  (250, -40) it emits 25 steps, all 25 with a nonzero x-step and exactly 4 with a nonzero
  y-step.
\<close>

theorem goto_steps_bounded:
  "(goto tr x y m = Some (Inr m') \<longrightarrow>
      (\<exists>ms. moves m' = moves m @ ms \<and>
            tracks FIXED_DELTA (x, y) (current_x m, current_y m) ms \<and>
            (\<forall>(sx, sy) \<in> set ms. \<bar>sx\<bar> \<le> 10 \<and> \<bar>sy\<bar> \<le> 10) \<and>
            current_x m' = x \<and> current_y m' = y)) \<and>
   (\<bar>x - current_x m\<bar> < 2 ^ 1023 \<and> \<bar>y - current_y m\<bar> < 2 ^ 1023 \<longrightarrow>
      (\<exists>m'. goto tr x y m = Some (Inr m'))) \<and>
   (\<exists>m'. goto tr 250 (- 40) origin = Some (Inr m') \<and>
         current_x m' = 250 \<and> current_y m' = - 40 \<and>
         length (moves m') = 25 \<and>
         length (filter (\<lambda>(sx, sy). sx \<noteq> 0) (moves m')) = 25 \<and>
         length (filter (\<lambda>(sx, sy). sy \<noteq> 0) (moves m')) = 4)"
proof (intro conjI impI)
  assume run: "goto tr x y m = Some (Inr m')"
  have d: "(0::int) < FIXED_DELTA" "FIXED_DELTA < 2 ^ 53" by (simp_all add: FIXED_DELTA_def)
  from run have loop: "goto_loop FIXED_DELTA tr x y m = Some (Inr m')" by (simp add: goto_def)
  from goto_loop_tracks [OF d loop] obtain ms where
    ms: "moves m' = moves m @ ms" "tracks FIXED_DELTA (x, y) (current_x m, current_y m) ms"
    by blast
  from tracks_bounded [OF d(1) ms(2)]
  have "\<forall>(sx, sy) \<in> set ms. \<bar>sx\<bar> \<le> 10 \<and> \<bar>sy\<bar> \<le> 10" by (simp add: FIXED_DELTA_def)
  moreover from goto_loop_total [OF d(1), of tr x y m] loop
  have "current_x m' = x \<and> current_y m' = y" by simp
  ultimately show "\<exists>ms. moves m' = moves m @ ms \<and>
            tracks FIXED_DELTA (x, y) (current_x m, current_y m) ms \<and>
            (\<forall>(sx, sy) \<in> set ms. \<bar>sx\<bar> \<le> 10 \<and> \<bar>sy\<bar> \<le> 10) \<and>
            current_x m' = x \<and> current_y m' = y"
    using ms by blast
next
  assume "\<bar>x - current_x m\<bar> < 2 ^ 1023 \<and> \<bar>y - current_y m\<bar> < 2 ^ 1023"
  then show "\<exists>m'. goto tr x y m = Some (Inr m')"
    unfolding goto_def using goto_loop_fits [of FIXED_DELTA x m y tr]
    by (simp add: FIXED_DELTA_def)
next
  show "\<exists>m'. goto tr 250 (- 40) origin = Some (Inr m') \<and>
         current_x m' = 250 \<and> current_y m' = - 40 \<and>
         length (moves m') = 25 \<and>
         length (filter (\<lambda>(sx, sy). sx \<noteq> 0) (moves m')) = 25 \<and>
         length (filter (\<lambda>(sx, sy). sy \<noteq> 0) (moves m')) = 4"
    by (rule goto_example)
qed

text \<open>Claim C2, witness: the run from the origin to (15, -5), evaluated.\<close>

theorem goto_steps_bounded_witness:
  "goto (\<lambda>n. True) 15 (- 5) origin =
     Some (Inr \<lparr>current_x = 15, current_y = - 5, current_button = 0,
                sent = [[0, 10, 251, 0], [0, 5, 0, 0]], console = [],
                moves = [(10, - 5), (5, 0)]\<rparr>) \<and>
   \<bar>15 - current_x origin\<bar> < 2 ^ 1023 \<and> \<bar>- 5 - current_y origin\<bar> < 2 ^ 1023 \<and>
   tracks FIXED_DELTA (15, - 5) (current_x origin, current_y origin) [(10, - 5), (5, 0)]"
proof -
  let ?M1 = "\<lparr>current_x = 10, current_y = - 5, current_button = 0,
                sent = [[0, 10, 251, 0]], console = [], moves = [(10, - 5)]\<rparr>"
  let ?M = "\<lparr>current_x = 15, current_y = - 5, current_button = 0,
                sent = [[0, 10, 251, 0], [0, 5, 0, 0]], console = [],
                moves = [(10, - 5), (5, 0)]\<rparr>"
  have s1: "goto_body 10 (\<lambda>n. True) (15 - current_x origin) (- 5 - current_y origin) origin = Inr ?M1"
    by (simp add: goto_body_def axis_step_small origin_def send_def send_current_def)
  have s2: "goto_body 10 (\<lambda>n. True) (15 - current_x ?M1) (- 5 - current_y ?M1) ?M1 = Inr ?M"
    by (simp add: goto_body_def axis_step_small send_def send_current_def)
  have "goto_loop 10 (\<lambda>n. True) 15 (- 5) origin = goto_loop 10 (\<lambda>n. True) 15 (- 5) ?M1"
    by (rule goto_loop_step [OF _ s1]) (simp add: origin_def)
  also have "\<dots> = goto_loop 10 (\<lambda>n. True) 15 (- 5) ?M"
    by (rule goto_loop_step [OF _ s2]) simp
  also have "\<dots> = Some (Inr ?M)" by (rule goto_loop_done) simp_all
  finally have run: "goto (\<lambda>n. True) 15 (- 5) origin = Some (Inr ?M)"
    by (simp add: goto_def FIXED_DELTA_def)
  have b: "\<bar>15 - current_x origin\<bar> < 2 ^ 1023 \<and> \<bar>- 5 - current_y origin\<bar> < 2 ^ 1023"
    by (simp add: origin_def)
  from goto_steps_bounded [of "\<lambda>n. True" 15 "- 5" origin ?M] run
  have "\<exists>ms. moves ?M = moves origin @ ms \<and>
          tracks FIXED_DELTA (15, - 5) (current_x origin, current_y origin) ms"
    by blast
  then have "tracks FIXED_DELTA (15, - 5) (current_x origin, current_y origin) [(10, - 5), (5, 0)]"
    by (simp add: origin_def)
  then show ?thesis using run b by blast
qed

text \<open>
  Claim C8 as stated fails for a target that no double can hold: from the origin to
  \<open>(2^1024, 0)\<close>, \<open>goto\<close> does not finish with the deltas at zero but
  returns the OverflowError of \<open>math.copysign\<close>.
\<close>

theorem goto_overflow_counterexample:
  "goto (\<lambda>n. True) (2 ^ 1024) 0 origin = Some (Inl OverflowError)"
  by (rule goto_overflow_cex)


text \<open>The exact threshold of \<open>float\<close>: helper lemmas for the amended claim C8.\<close>

lemma ulp_exp_unique:
  "2 ^ (52 + j) \<le> n \<Longrightarrow> n < 2 ^ (53 + j) \<Longrightarrow> ulp_exp n = j"
proof (induction j arbitrary: n)
  case 0
  then show ?case by (simp add: ulp_exp_small)
next
  case (Suc j)
  have "(2::nat) ^ 53 \<le> 2 ^ (52 + Suc j)" by (rule power_increasing) simp_all
  then have "2 ^ 53 \<le> n" using Suc.prems(1) by (rule order_trans)
  then have big: "\<not> n < 2 ^ 53" by (simp only: not_less)
  have e: "ulp_exp n = Suc (ulp_exp (n div 2))"
    using big by (subst ulp_exp.simps) (simp only: if_False)
  have lo: "(2::nat) ^ (52 + Suc j) = 2 * 2 ^ (52 + j)" by (simp only: add_Suc_right power_Suc)
  have hi: "(2::nat) ^ (53 + Suc j) = 2 * 2 ^ (53 + j)" by (simp only: add_Suc_right power_Suc)
  have "2 ^ (52 + j) \<le> n div 2" using Suc.prems(1) unfolding lo by linarith
  moreover have "n div 2 < 2 ^ (53 + j)" using Suc.prems(2) unfolding hi by linarith
  ultimately have "ulp_exp (n div 2) = j" by (rule Suc.IH)
  then show ?case using e by simp
qed

lemma ulp_exp_quot_lo: "2 ^ 53 \<le> n \<Longrightarrow> 2 ^ 52 \<le> n div 2 ^ ulp_exp n"
proof (induction n rule: ulp_exp.induct)
  case (1 n)
  then have big: "\<not> n < 2 ^ 53" by (simp only: not_less)
  have e: "ulp_exp n = Suc (ulp_exp (n div 2))"
    using big by (subst ulp_exp.simps) (simp only: if_False)
  show ?case
  proof (cases "n div 2 < 2 ^ 53")
    case True
    then have z: "ulp_exp (n div 2) = 0" by (rule ulp_exp_small)
    have "(2::nat) ^ 53 = 2 * 2 ^ 52" by simp
    then have "2 ^ 52 \<le> n div 2" using "1.prems" by linarith
    then show ?thesis by (simp add: e z)
  next
    case False
    then have "2 ^ 53 \<le> n div 2" by (simp only: not_less)
    from "1.IH" [OF big this] show ?thesis by (simp add: e div_mult2_eq)
  qed
qed

lemma round_rule:
  fixes u h Q q r n :: nat
  assumes u: "u = 2 * h" and h: "0 < h" and Q: "even Q" and n: "n = q * u + r"
    and r: "r < u" and q: "q < Q"
  shows "Q * u \<le> (if 2 * r < u \<or> (2 * r = u \<and> even q) then q * u else (q + 1) * u)
         \<longleftrightarrow> Q * u \<le> n + h"
proof (cases "q + 1 = Q")
  case True
  then have odd: "odd q" using Q by auto
  define a where "a = q * u"
  have Qu: "Q * u = a + u" using True by (simp add: a_def algebra_simps flip: True)
  have up: "(q + 1) * u = a + u" by (simp add: a_def algebra_simps)
  have n': "n = a + r" by (simp add: n a_def)
  show ?thesis unfolding Qu n' up a_def [symmetric] using odd u h r by auto
next
  case False
  then have "q + 2 \<le> Q" using q by simp
  then have "(q + 2) * u \<le> Q * u" by (rule mult_le_mono1)
  define a where "a = q * u"
  have ge: "a + 2 * u \<le> Q * u" using \<open>(q + 2) * u \<le> Q * u\<close> by (simp add: a_def algebra_simps)
  have up: "(q + 1) * u = a + u" by (simp add: a_def algebra_simps)
  have n': "n = a + r" by (simp add: n a_def)
  show ?thesis unfolding n' up a_def [symmetric] using ge u h r by auto
qed

lemma round_to_double_overflow_iff:
  "2 ^ 1024 \<le> round_to_double n \<longleftrightarrow> 2 ^ 1024 \<le> n + 2 ^ 970"
proof -
  define B :: nat where "B = 2 ^ 1024"
  define H :: nat where "H = 2 ^ 1023"
  define u :: nat where "u = 2 ^ 971"
  define h :: nat where "h = 2 ^ 970"
  define Q :: nat where "Q = 2 ^ 53"
  have BH: "B = 2 * H" by (simp add: B_def H_def)
  have uh: "u = 2 * h" by (simp add: u_def h_def)
  have hpos: "0 < h" by (simp add: h_def)
  have BQ: "B = Q * u" unfolding B_def Q_def u_def by (simp flip: power_add)
  have hH: "h < H" unfolding h_def H_def by (rule power_strict_increasing) simp_all
  consider "n < H" | "H \<le> n" "n < B" | "B \<le> n" by linarith
  then have "B \<le> round_to_double n \<longleftrightarrow> B \<le> n + h"
  proof cases
    case 1
    have "round_to_double n < B"
    proof (cases "n = 0")
      case True
      then show ?thesis by (simp add: round_to_double_small B_def)
    next
      case False
      then have "round_to_double n < 2 * n" using round_to_double_bounds [of n] by simp
      then show ?thesis using 1 BH by linarith
    qed
    moreover have "n + h < B" using 1 hH BH by linarith
    ultimately show ?thesis by simp
  next
    case 2
    have "2 ^ (52 + 971) \<le> n" using 2(1) by (simp add: H_def)
    moreover have "n < 2 ^ (53 + 971)" using 2(2) by (simp add: B_def)
    ultimately have e: "ulp_exp n = 971" by (rule ulp_exp_unique)
    define q where "q = n div u"
    define r where "r = n mod u"
    have n: "n = q * u + r" by (simp add: q_def r_def)
    have upos: "0 < u" by (simp add: u_def)
    then have r: "r < u" by (simp add: r_def)
    have q: "q < Q"
    proof (rule ccontr)
      assume "\<not> q < Q"
      then have "Q \<le> q" by simp
      then have "Q * u \<le> q * u" by (rule mult_le_mono1)
      then show False using n 2(2) BQ by linarith
    qed
    have Qe: "even Q" by (simp add: Q_def)
    have rd: "round_to_double n =
                (if 2 * r < u \<or> (2 * r = u \<and> even q) then q * u else (q + 1) * u)"
      by (simp only: round_to_double_def e Let_def q_def r_def u_def)
    show ?thesis unfolding rd BQ by (rule round_rule [OF uh hpos Qe n r q])
  next
    case 3
    define e where "e = ulp_exp n"
    define q where "q = n div 2 ^ e"
    have big: "2 ^ 53 \<le> n"
    proof -
      have "(2::nat) ^ 53 \<le> 2 ^ 1024" by (rule power_increasing) simp_all
      then show ?thesis using 3 unfolding B_def by (rule order_trans)
    qed
    have qlo: "2 ^ 52 \<le> q" unfolding q_def e_def using big by (rule ulp_exp_quot_lo)
    have qhi: "q < 2 ^ 53" unfolding q_def e_def by (rule ulp_exp_quot)
    have "n < (q + 1) * 2 ^ e"
      unfolding q_def by (metis Suc_eq_plus1 dividend_less_div_times mult.commute
          zero_less_numeral zero_less_power add.commute mult_Suc)
    also have "\<dots> \<le> 2 ^ 53 * 2 ^ e" using qhi by (intro mult_le_mono1) simp
    finally have "(2::nat) ^ 1024 < 2 ^ (53 + e)" using 3 by (simp add: B_def power_add)
    then have "1024 < 53 + e" by (simp only: power_strict_increasing_iff)
    then have "972 \<le> e" by simp
    then have "(2::nat) ^ 972 \<le> 2 ^ e" by (intro power_increasing) simp_all
    then have "(2::nat) ^ 52 * 2 ^ 972 \<le> q * 2 ^ e" using qlo by (rule mult_le_mono [rotated])
    moreover have "(2::nat) ^ 52 * 2 ^ 972 = B" unfolding B_def by (simp flip: power_add)
    ultimately have "B \<le> q * 2 ^ e" by simp
    moreover have "q * 2 ^ e \<le> round_to_double n"
      by (simp add: round_to_double_def Let_def q_def e_def)
    ultimately have "B \<le> round_to_double n" by linarith
    then show ?thesis using 3 by simp
  qed
  then show ?thesis by (simp only: B_def h_def)
qed


lemma float_limit_pos: "0 < float_limit"
proof -
  have "(2::int) ^ 970 < 2 ^ 1024" by (rule power_strict_increasing) simp_all
  then show ?thesis by (simp only: float_limit_def diff_gt_0_iff_gt)
qed

lemma py_float_limit: "py_float n = Inl OverflowError \<longleftrightarrow> float_limit \<le> \<bar>n\<bar>"
proof -
  define B :: nat where "B = 2 ^ 1024"
  define h :: nat where "h = 2 ^ 970"
  define k where "k = nat \<bar>n\<bar>"
  have k: "int k = \<bar>n\<bar>" by (simp add: k_def)
  have L: "float_limit = int B - int h" by (simp only: float_limit_def B_def h_def of_nat_power of_nat_numeral)
  have "py_float n = Inl OverflowError \<longleftrightarrow> B \<le> round_to_double k"
    by (simp add: py_float_def Let_def k_def B_def)
  also have "\<dots> \<longleftrightarrow> B \<le> k + h" unfolding B_def h_def by (rule round_to_double_overflow_iff)
  also have "\<dots> \<longleftrightarrow> int B \<le> int k + int h" by (simp only: of_nat_le_iff of_nat_add [symmetric])
  also have "\<dots> \<longleftrightarrow> float_limit \<le> \<bar>n\<bar>" unfolding L k by linarith
  finally show ?thesis .
qed

lemma py_float_below: "\<bar>n\<bar> < float_limit \<Longrightarrow> \<exists>v. py_float n = Inr v"
proof -
  assume "\<bar>n\<bar> < float_limit"
  then have "py_float n \<noteq> Inl OverflowError" by (simp add: py_float_limit)
  then show ?thesis using py_float_Inl [of n] by (cases "py_float n") auto
qed

lemma axis_step_Inl: "axis_step d dx = Inl e \<Longrightarrow> e = OverflowError"
  by (auto simp: axis_step_def int_copysign_def split: if_splits sum.splits dest: py_float_Inl)

lemma axis_step_below:
  assumes "0 < d" and "\<bar>dx\<bar> < float_limit"
  shows "\<exists>s. axis_step d dx = Inr s"
proof (cases "dx = 0")
  case True
  then show ?thesis by (simp add: axis_step_def)
next
  case False
  have "\<bar>min \<bar>dx\<bar> d\<bar> < float_limit" using assms by auto
  then obtain fa where "py_float (min \<bar>dx\<bar> d) = Inr fa" using py_float_below by blast
  moreover obtain fb where "py_float dx = Inr fb" using py_float_below [OF assms(2)] by blast
  ultimately show ?thesis using False by (simp add: axis_step_def int_copysign_def)
qed

lemma axis_step_beyond:
  assumes "float_limit \<le> \<bar>dx\<bar>"
  shows "axis_step d dx = Inl OverflowError"
proof -
  have nz: "dx \<noteq> 0" using assms float_limit_pos by auto
  have "py_float dx = Inl OverflowError" using assms by (simp add: py_float_limit)
  with nz show ?thesis by (rule axis_step_overflow)
qed

lemma axis_step_limit:
  assumes "0 < d"
  shows "axis_step d dx = Inl OverflowError \<longleftrightarrow> float_limit \<le> \<bar>dx\<bar>"
proof
  assume "axis_step d dx = Inl OverflowError"
  then show "float_limit \<le> \<bar>dx\<bar>" using axis_step_below [OF assms, of dx] by (cases "\<bar>dx\<bar> < float_limit") auto
next
  assume "float_limit \<le> \<bar>dx\<bar>"
  then show "axis_step d dx = Inl OverflowError" by (rule axis_step_beyond)
qed

lemma goto_body_limit:
  assumes "0 < d"
  shows "goto_body d tr dx dy m = Inl OverflowError \<longleftrightarrow> float_limit \<le> \<bar>dx\<bar> \<or> float_limit \<le> \<bar>dy\<bar>"
proof (cases "axis_step d dx")
  case (Inl e)
  then have e: "e = OverflowError" by (rule axis_step_Inl)
  then have "float_limit \<le> \<bar>dx\<bar>" using Inl axis_step_limit [OF assms, of dx] by simp
  then show ?thesis using Inl e by (simp add: goto_body_def)
next
  case sx: (Inr sx)
  then have nx: "\<not> float_limit \<le> \<bar>dx\<bar>" using axis_step_limit [OF assms, of dx] by simp
  show ?thesis
  proof (cases "axis_step d dy")
    case (Inl e)
    then have e: "e = OverflowError" by (rule axis_step_Inl)
    then have "float_limit \<le> \<bar>dy\<bar>" using Inl axis_step_limit [OF assms, of dy] by simp
    then show ?thesis using Inl e sx by (simp add: goto_body_def)
  next
    case sy: (Inr sy)
    then have ny: "\<not> float_limit \<le> \<bar>dy\<bar>" using axis_step_limit [OF assms, of dy] by simp
    show ?thesis using sx sy nx ny by (simp add: goto_body_def Let_def)
  qed
qed

lemma goto_loop_below:
  assumes "0 < d"
  shows "\<bar>x - current_x m\<bar> < float_limit \<Longrightarrow> \<bar>y - current_y m\<bar> < float_limit \<Longrightarrow>
         \<exists>m'. goto_loop d tr x y m = Some (Inr m') \<and> current_x m' = x \<and> current_y m' = y"
proof (induction "nat (\<bar>x - current_x m\<bar> + \<bar>y - current_y m\<bar>)" arbitrary: m rule: less_induct)
  case less
  show ?case
  proof (cases "x - current_x m \<noteq> 0 \<or> y - current_y m \<noteq> 0")
    case False
    then show ?thesis by (subst goto_loop.simps) simp
  next
    case True
    obtain sx where sx: "axis_step d (x - current_x m) = Inr sx"
      using axis_step_below [OF assms less.prems(1)] by blast
    obtain sy where sy: "axis_step d (y - current_y m) = Inr sy"
      using axis_step_below [OF assms less.prems(2)] by blast
    obtain m1 where m1: "goto_body d tr (x - current_x m) (y - current_y m) m = Inr m1"
      using sx sy by (simp add: goto_body_def Let_def)
    from goto_body_decrease [OF assms m1] True
    have dec: "nat (\<bar>x - current_x m1\<bar> + \<bar>y - current_y m1\<bar>)
              < nat (\<bar>x - current_x m\<bar> + \<bar>y - current_y m\<bar>)"
      by (cases "x = current_x m"; cases "y = current_y m") auto
    from goto_body_decrease [OF assms m1] less.prems
    have b: "\<bar>x - current_x m1\<bar> < float_limit" "\<bar>y - current_y m1\<bar> < float_limit"
      by (cases "x = current_x m"; cases "y = current_y m"; simp)+
    from less.hyps [OF dec b] obtain m' where
      "goto_loop d tr x y m1 = Some (Inr m') \<and> current_x m' = x \<and> current_y m' = y" by blast
    moreover have "goto_loop d tr x y m = goto_loop d tr x y m1"
      using True m1 by (subst goto_loop.simps) (simp add: Let_def)
    ultimately show ?thesis by simp
  qed
qed

lemma goto_loop_beyond:
  assumes "0 < d" and "float_limit \<le> \<bar>x - current_x m\<bar> \<or> float_limit \<le> \<bar>y - current_y m\<bar>"
  shows "goto_loop d tr x y m = Some (Inl OverflowError)"
proof -
  have nz: "x - current_x m \<noteq> 0 \<or> y - current_y m \<noteq> 0" using assms(2) float_limit_pos by auto
  have "goto_body d tr (x - current_x m) (y - current_y m) m = Inl OverflowError"
    using assms(2) by (simp only: goto_body_limit [OF assms(1)])
  then show ?thesis using nz by (subst goto_loop.simps) (simp add: Let_def)
qed

lemma goto_finetune_loop_moves:
  assumes "0 < d"
  shows "goto_finetune_loop d tr dx dy m = Some (Inr m') \<Longrightarrow>
         \<exists>ms. moves m' = moves m @ ms \<and> sum_list (map fst ms) = dx \<and> sum_list (map snd ms) = dy \<and>
              current_x m' = current_x m \<and> current_y m' = current_y m"
proof (induction "nat (\<bar>dx\<bar> + \<bar>dy\<bar>)" arbitrary: dx dy m rule: less_induct)
  case less
  show ?case
  proof (cases "dx \<noteq> 0 \<or> dy \<noteq> 0")
    case False
    then have "goto_finetune_loop d tr dx dy m = Some (Inr m)"
      by (subst goto_finetune_loop.simps) simp
    then have "m' = m" using less.prems by simp
    then show ?thesis using False by simp
  next
    case True
    from True less.prems obtain sx sy where
      sx: "axis_step d dx = Inr sx" and sy: "axis_step d dy = Inr sy"
      and run: "goto_finetune_loop d tr (dx - sx) (dy - sy) (send tr sx sy m) = Some (Inr m')"
      by (subst (asm) goto_finetune_loop.simps) (auto split: sum.splits)
    from axis_step_decrease [OF assms sx] axis_step_decrease [OF assms sy] True
    have dec: "nat (\<bar>dx - sx\<bar> + \<bar>dy - sy\<bar>) < nat (\<bar>dx\<bar> + \<bar>dy\<bar>)"
      by (cases "dx = 0"; cases "dy = 0") auto
    from less.hyps [OF dec run] obtain ms where
      ms: "moves m' = moves (send tr sx sy m) @ ms" "sum_list (map fst ms) = dx - sx"
          "sum_list (map snd ms) = dy - sy"
          "current_x m' = current_x (send tr sx sy m)" "current_y m' = current_y (send tr sx sy m)"
      by blast
    have "moves m' = moves m @ ((sx, sy) # ms)" using ms(1) by simp
    moreover have "sum_list (map fst ((sx, sy) # ms)) = dx" using ms(2) by simp
    moreover have "sum_list (map snd ((sx, sy) # ms)) = dy" using ms(3) by simp
    ultimately show ?thesis using ms(4,5) by (intro exI [of _ "(sx, sy) # ms"]) simp
  qed
qed

lemma goto_finetune_loop_below:
  assumes "0 < d"
  shows "\<bar>dx\<bar> < float_limit \<Longrightarrow> \<bar>dy\<bar> < float_limit \<Longrightarrow>
         \<exists>m'. goto_finetune_loop d tr dx dy m = Some (Inr m')"
proof (induction "nat (\<bar>dx\<bar> + \<bar>dy\<bar>)" arbitrary: dx dy m rule: less_induct)
  case less
  show ?case
  proof (cases "dx \<noteq> 0 \<or> dy \<noteq> 0")
    case False
    then show ?thesis by (subst goto_finetune_loop.simps) simp
  next
    case True
    obtain sx where sx: "axis_step d dx = Inr sx"
      using axis_step_below [OF assms less.prems(1)] by blast
    obtain sy where sy: "axis_step d dy = Inr sy"
      using axis_step_below [OF assms less.prems(2)] by blast
    from axis_step_decrease [OF assms sx] axis_step_decrease [OF assms sy] True
    have dec: "nat (\<bar>dx - sx\<bar> + \<bar>dy - sy\<bar>) < nat (\<bar>dx\<bar> + \<bar>dy\<bar>)"
      by (cases "dx = 0"; cases "dy = 0") auto
    from axis_step_decrease [OF assms sx] axis_step_decrease [OF assms sy] less.prems
    have b: "\<bar>dx - sx\<bar> < float_limit" "\<bar>dy - sy\<bar> < float_limit"
      by (cases "dx = 0"; cases "dy = 0"; simp)+
    from less.hyps [OF dec b] obtain m' where
      "goto_finetune_loop d tr (dx - sx) (dy - sy) (send tr sx sy m) = Some (Inr m')" by blast
    then show ?thesis using True sx sy by (subst goto_finetune_loop.simps) simp
  qed
qed

lemma goto_finetune_loop_beyond:
  assumes "float_limit \<le> \<bar>dx\<bar> \<or> float_limit \<le> \<bar>dy\<bar>"
  shows "goto_finetune_loop d tr dx dy m = Some (Inl OverflowError)"
proof -
  have nz: "dx \<noteq> 0 \<or> dy \<noteq> 0" using assms float_limit_pos by auto
  show ?thesis
  proof (cases "axis_step d dx")
    case (Inl e)
    then show ?thesis using nz axis_step_Inl [OF Inl]
      by (subst goto_finetune_loop.simps) simp
  next
    case (Inr sx)
    then have "\<not> float_limit \<le> \<bar>dx\<bar>" using axis_step_beyond [of dx d] by auto
    then have "axis_step d dy = Inl OverflowError" using assms axis_step_beyond by blast
    then show ?thesis using nz Inr by (subst goto_finetune_loop.simps) simp
  qed
qed

lemma goto_finetune_loop_step:
  assumes "dx \<noteq> 0 \<or> dy \<noteq> 0" and "axis_step d dx = Inr sx" and "axis_step d dy = Inr sy"
  shows "goto_finetune_loop d tr dx dy m =
         goto_finetune_loop d tr (dx - sx) (dy - sy) (send tr sx sy m)"
  using assms by (subst goto_finetune_loop.simps) simp



lemma float_limit_big: "2 ^ 1023 \<le> float_limit"
proof -
  have "(2::int) ^ 970 \<le> 2 ^ 1023" by (rule power_increasing) simp_all
  moreover have "(2::int) ^ 1024 = 2 * 2 ^ 1023" by simp
  ultimately show ?thesis unfolding float_limit_def by linarith
qed

lemma goto_finetune_below:
  assumes "\<bar>x - current_x m\<bar> < float_limit" and "\<bar>y - current_y m\<bar> < float_limit"
  shows "\<exists>m' ms. goto_finetune tr x y m = Some (Inr m') \<and> current_x m' = x \<and> current_y m' = y \<and>
           moves m' = moves m @ ms \<and> sum_list (map fst ms) = x - current_x m \<and>
           sum_list (map snd ms) = y - current_y m"
proof -
  have d: "0 < FIXED_DELTA_finetune" by (simp add: FIXED_DELTA_finetune_def)
  from goto_finetune_loop_below [OF d assms] obtain m1 where
    m1: "goto_finetune_loop FIXED_DELTA_finetune tr (x - current_x m) (y - current_y m) m
           = Some (Inr m1)" by blast
  from goto_finetune_loop_moves [OF d m1] obtain ms where
    "moves m1 = moves m @ ms" "sum_list (map fst ms) = x - current_x m"
    "sum_list (map snd ms) = y - current_y m" by blast
  then show ?thesis by (simp add: goto_finetune_def m1)
qed

lemma goto_finetune_beyond:
  assumes "float_limit \<le> \<bar>x - current_x m\<bar> \<or> float_limit \<le> \<bar>y - current_y m\<bar>"
  shows "goto_finetune tr x y m = Some (Inl OverflowError)"
  by (simp add: goto_finetune_def goto_finetune_loop_beyond [OF assms])

lemma float_limit_small: "\<bar>n\<bar> < 2 ^ 53 \<Longrightarrow> \<bar>n\<bar> < float_limit"
proof -
  assume a: "\<bar>n\<bar> < 2 ^ 53"
  have p: "(2::int) ^ 53 \<le> 2 ^ 1023" by (rule power_increasing) simp_all
  show ?thesis by (rule less_le_trans [OF a order_trans [OF p float_limit_big]])
qed

text \<open>
  Claim C8, amended. For every positive integer maximum step size \<open>d\<close>, every integer
  target and every controller state, with \<open>float_limit = 2^1024 - 2^970\<close>:
  the loop of solver.py and the loop of finetune.py return; they return normally exactly
  when both initial deltas are below \<open>float_limit\<close> in magnitude, solver.py's loop with
  the tracked position equal to the target and finetune.py's loop after emitting steps
  whose sums are the two initial deltas (so that a nonzero delta is never skipped), and
  finetune.py's \<open>goto\<close> then sets the tracked position to the target; they return
  OverflowError exactly when an initial delta is \<open>float_limit\<close> or more in magnitude, and
  then the step computation of the first iteration of solver.py's loop is what raises;
  and every iteration whose steps are computed strictly decreases the magnitude of each
  nonzero delta, leaves a zero delta at zero, and continues the loop from the reduced
  deltas.
\<close>

theorem goto_terminates:
  assumes "0 < d"
  shows "(\<exists>r. goto_loop d tr x y m = Some r) \<and>
         (\<exists>r. goto_finetune_loop d tr dx dy m = Some r) \<and>
         ((\<exists>m'. goto_loop d tr x y m = Some (Inr m') \<and> current_x m' = x \<and> current_y m' = y)
            = (\<bar>x - current_x m\<bar> < float_limit \<and> \<bar>y - current_y m\<bar> < float_limit)) \<and>
         ((goto_loop d tr x y m = Some (Inl OverflowError))
            = (float_limit \<le> \<bar>x - current_x m\<bar> \<or> float_limit \<le> \<bar>y - current_y m\<bar>)) \<and>
         ((goto_body d tr (x - current_x m) (y - current_y m) m = Inl OverflowError)
            = (float_limit \<le> \<bar>x - current_x m\<bar> \<or> float_limit \<le> \<bar>y - current_y m\<bar>)) \<and>
         ((\<exists>m' ms. goto_finetune_loop d tr dx dy m = Some (Inr m') \<and> moves m' = moves m @ ms \<and>
                    sum_list (map fst ms) = dx \<and> sum_list (map snd ms) = dy)
            = (\<bar>dx\<bar> < float_limit \<and> \<bar>dy\<bar> < float_limit)) \<and>
         ((goto_finetune_loop d tr dx dy m = Some (Inl OverflowError))
            = (float_limit \<le> \<bar>dx\<bar> \<or> float_limit \<le> \<bar>dy\<bar>)) \<and>
         ((\<exists>m'. goto_finetune tr x y m = Some (Inr m') \<and> current_x m' = x \<and> current_y m' = y)
            = (\<bar>x - current_x m\<bar> < float_limit \<and> \<bar>y - current_y m\<bar> < float_limit)) \<and>
         (\<forall>m1. goto_body d tr (x - current_x m) (y - current_y m) m = Inr m1 \<longrightarrow>
            (x = current_x m \<longrightarrow> current_x m1 = x) \<and>
            (x \<noteq> current_x m \<longrightarrow> \<bar>x - current_x m1\<bar> < \<bar>x - current_x m\<bar>) \<and>
            (y = current_y m \<longrightarrow> current_y m1 = y) \<and>
            (y \<noteq> current_y m \<longrightarrow> \<bar>y - current_y m1\<bar> < \<bar>y - current_y m\<bar>)) \<and>
         (\<forall>sx sy. (dx \<noteq> 0 \<or> dy \<noteq> 0) \<and> axis_step d dx = Inr sx \<and> axis_step d dy = Inr sy \<longrightarrow>
            goto_finetune_loop d tr dx dy m =
              goto_finetune_loop d tr (dx - sx) (dy - sy) (send tr sx sy m) \<and>
            (dx = 0 \<longrightarrow> sx = 0) \<and> (dx \<noteq> 0 \<longrightarrow> \<bar>dx - sx\<bar> < \<bar>dx\<bar>) \<and>
            (dy = 0 \<longrightarrow> sy = 0) \<and> (dy \<noteq> 0 \<longrightarrow> \<bar>dy - sy\<bar> < \<bar>dy\<bar>))"
proof -
  let ?below = "\<bar>x - current_x m\<bar> < float_limit \<and> \<bar>y - current_y m\<bar> < float_limit"
  let ?beyond = "float_limit \<le> \<bar>x - current_x m\<bar> \<or> float_limit \<le> \<bar>y - current_y m\<bar>"
  have split: "?below \<longleftrightarrow> \<not> ?beyond" by auto
  have A: "\<exists>r. goto_loop d tr x y m = Some r" using goto_loop_total [OF assms] by blast
  have B: "\<exists>r. goto_finetune_loop d tr dx dy m = Some r" by (rule goto_finetune_loop_total [OF assms])
  have C: "(\<exists>m'. goto_loop d tr x y m = Some (Inr m') \<and> current_x m' = x \<and> current_y m' = y)
            = ?below"
  proof (cases ?below)
    case True
    then show ?thesis using goto_loop_below [OF assms, of x m y tr] by simp
  next
    case False
    then have "?beyond" by auto
    from goto_loop_beyond [OF assms this] False show ?thesis by simp
  qed
  have D: "(goto_loop d tr x y m = Some (Inl OverflowError)) = ?beyond"
  proof (cases ?beyond)
    case True
    from goto_loop_beyond [OF assms this] True show ?thesis by simp
  next
    case False
    then have "?below" by auto
    then obtain m' where "goto_loop d tr x y m = Some (Inr m')"
      using goto_loop_below [OF assms, of x m y tr] by blast
    then show ?thesis using False by simp
  qed
  have E: "(goto_body d tr (x - current_x m) (y - current_y m) m = Inl OverflowError) = ?beyond"
    by (rule goto_body_limit [OF assms])
  have F: "(\<exists>m' ms. goto_finetune_loop d tr dx dy m = Some (Inr m') \<and> moves m' = moves m @ ms \<and>
                    sum_list (map fst ms) = dx \<and> sum_list (map snd ms) = dy)
            = (\<bar>dx\<bar> < float_limit \<and> \<bar>dy\<bar> < float_limit)"
  proof (cases "\<bar>dx\<bar> < float_limit \<and> \<bar>dy\<bar> < float_limit")
    case True
    then obtain m' where m': "goto_finetune_loop d tr dx dy m = Some (Inr m')"
      using goto_finetune_loop_below [OF assms] by blast
    from goto_finetune_loop_moves [OF assms m'] m' True show ?thesis by blast
  next
    case False
    then have "float_limit \<le> \<bar>dx\<bar> \<or> float_limit \<le> \<bar>dy\<bar>" by auto
    from goto_finetune_loop_beyond [OF this] False show ?thesis by simp
  qed
  have G: "(goto_finetune_loop d tr dx dy m = Some (Inl OverflowError))
            = (float_limit \<le> \<bar>dx\<bar> \<or> float_limit \<le> \<bar>dy\<bar>)"
  proof (cases "float_limit \<le> \<bar>dx\<bar> \<or> float_limit \<le> \<bar>dy\<bar>")
    case True
    from goto_finetune_loop_beyond [OF this] True show ?thesis by simp
  next
    case False
    then have "\<bar>dx\<bar> < float_limit" "\<bar>dy\<bar> < float_limit" by auto
    from goto_finetune_loop_below [OF assms this] obtain m' where
      "goto_finetune_loop d tr dx dy m = Some (Inr m')" by blast
    then show ?thesis using False by simp
  qed
  have H: "(\<exists>m'. goto_finetune tr x y m = Some (Inr m') \<and> current_x m' = x \<and> current_y m' = y)
            = ?below"
  proof (cases ?below)
    case True
    then have "\<bar>x - current_x m\<bar> < float_limit" "\<bar>y - current_y m\<bar> < float_limit" by auto
    from goto_finetune_below [OF this] True show ?thesis by blast
  next
    case False
    then have "?beyond" by auto
    from goto_finetune_beyond [OF this] False show ?thesis by simp
  qed
  have I: "\<forall>m1. goto_body d tr (x - current_x m) (y - current_y m) m = Inr m1 \<longrightarrow>
            (x = current_x m \<longrightarrow> current_x m1 = x) \<and>
            (x \<noteq> current_x m \<longrightarrow> \<bar>x - current_x m1\<bar> < \<bar>x - current_x m\<bar>) \<and>
            (y = current_y m \<longrightarrow> current_y m1 = y) \<and>
            (y \<noteq> current_y m \<longrightarrow> \<bar>y - current_y m1\<bar> < \<bar>y - current_y m\<bar>)"
    using goto_body_decrease [OF assms] by blast
  have J: "\<forall>sx sy. (dx \<noteq> 0 \<or> dy \<noteq> 0) \<and> axis_step d dx = Inr sx \<and> axis_step d dy = Inr sy \<longrightarrow>
            goto_finetune_loop d tr dx dy m =
              goto_finetune_loop d tr (dx - sx) (dy - sy) (send tr sx sy m) \<and>
            (dx = 0 \<longrightarrow> sx = 0) \<and> (dx \<noteq> 0 \<longrightarrow> \<bar>dx - sx\<bar> < \<bar>dx\<bar>) \<and>
            (dy = 0 \<longrightarrow> sy = 0) \<and> (dy \<noteq> 0 \<longrightarrow> \<bar>dy - sy\<bar> < \<bar>dy\<bar>)"
  proof (intro allI impI)
    fix sx sy
    assume h: "(dx \<noteq> 0 \<or> dy \<noteq> 0) \<and> axis_step d dx = Inr sx \<and> axis_step d dy = Inr sy"
    then have nz: "dx \<noteq> 0 \<or> dy \<noteq> 0" and sx: "axis_step d dx = Inr sx"
      and sy: "axis_step d dy = Inr sy" by simp_all
    from goto_finetune_loop_step [OF nz sx sy]
      axis_step_decrease [OF assms sx] axis_step_decrease [OF assms sy]
    show "goto_finetune_loop d tr dx dy m =
              goto_finetune_loop d tr (dx - sx) (dy - sy) (send tr sx sy m) \<and>
            (dx = 0 \<longrightarrow> sx = 0) \<and> (dx \<noteq> 0 \<longrightarrow> \<bar>dx - sx\<bar> < \<bar>dx\<bar>) \<and>
            (dy = 0 \<longrightarrow> sy = 0) \<and> (dy \<noteq> 0 \<longrightarrow> \<bar>dy - sy\<bar> < \<bar>dy\<bar>)"
      by simp
  qed
  from A B C D E F G H I J show ?thesis by (intro conjI)
qed

text \<open>
  Claim C8, witness: step size 10, from the origin to (15, -5); both deltas are below
  \<open>float_limit\<close>, the first iteration steps by (10, -5), and the loops return normally.
\<close>

theorem goto_terminates_witness:
  "(0::int) < 10 \<and>
   \<bar>15 - current_x origin\<bar> < float_limit \<and> \<bar>- 5 - current_y origin\<bar> < float_limit \<and>
   goto_body 10 (\<lambda>n. True) (15 - current_x origin) (- 5 - current_y origin) origin =
     Inr \<lparr>current_x = 10, current_y = - 5, current_button = 0,
          sent = [[0, 10, 251, 0]], console = [], moves = [(10, - 5)]\<rparr> \<and>
   \<bar>15 - (10::int)\<bar> < \<bar>15 - current_x origin\<bar> \<and>
   (\<exists>m'. goto_loop 10 (\<lambda>n. True) 15 (- 5) origin = Some (Inr m') \<and>
         current_x m' = 15 \<and> current_y m' = - 5) \<and>
   goto_loop 10 (\<lambda>n. True) 15 (- 5) origin \<noteq> Some (Inl OverflowError) \<and>
   axis_step 10 15 = Inr 10 \<and> axis_step 10 (- 5) = Inr (- 5) \<and>
   goto_finetune_loop 10 (\<lambda>n. True) 15 (- 5) origin =
     goto_finetune_loop 10 (\<lambda>n. True) (15 - 10) (- 5 - (- 5)) (send (\<lambda>n. True) 10 (- 5) origin) \<and>
   (\<exists>m' ms. goto_finetune_loop 10 (\<lambda>n. True) 15 (- 5) origin = Some (Inr m') \<and>
         moves m' = moves origin @ ms \<and> sum_list (map fst ms) = 15 \<and> sum_list (map snd ms) = - 5) \<and>
   (\<exists>m'. goto_finetune (\<lambda>n. True) 15 (- 5) origin = Some (Inr m') \<and>
         current_x m' = 15 \<and> current_y m' = - 5)"
proof -
  let ?M1 = "\<lparr>current_x = 10, current_y = - 5, current_button = 0,
                sent = [[0, 10, 251, 0]], console = [], moves = [(10, - 5)]\<rparr>"
  have d: "(0::int) < 10" by simp
  have ox: "15 - current_x origin = 15" and oy: "- 5 - current_y origin = - 5"
    by (simp_all add: origin_def)
  have b15: "\<bar>15::int\<bar> < float_limit" by (rule float_limit_small) simp
  have b5: "\<bar>- 5::int\<bar> < float_limit" by (rule float_limit_small) simp
  have b': "\<bar>15::int\<bar> < float_limit \<and> \<bar>- 5::int\<bar> < float_limit" using b15 b5 by (rule conjI)
  have b: "\<bar>15 - current_x origin\<bar> < float_limit \<and> \<bar>- 5 - current_y origin\<bar> < float_limit"
    unfolding ox oy by (rule b')
  have s1: "goto_body 10 (\<lambda>n. True) (15 - current_x origin) (- 5 - current_y origin) origin = Inr ?M1"
    by (simp add: goto_body_def axis_step_small origin_def send_def send_current_def)
  have ax: "axis_step 10 15 = Inr 10" and ay: "axis_step 10 (- 5) = Inr (- 5)"
    by (simp_all add: axis_step_small)
  note T = goto_terminates [OF d, of "\<lambda>n. True" 15 "- 5" origin 15 "- 5"]
  note C = T [THEN conjunct2, THEN conjunct2, THEN conjunct1]
  note D = T [THEN conjunct2, THEN conjunct2, THEN conjunct2, THEN conjunct1]
  note F = T [THEN conjunct2, THEN conjunct2, THEN conjunct2, THEN conjunct2, THEN conjunct2,
              THEN conjunct1]
  note H = T [THEN conjunct2, THEN conjunct2, THEN conjunct2, THEN conjunct2, THEN conjunct2,
              THEN conjunct2, THEN conjunct2, THEN conjunct1]
  note I = T [THEN conjunct2, THEN conjunct2, THEN conjunct2, THEN conjunct2, THEN conjunct2,
              THEN conjunct2, THEN conjunct2, THEN conjunct2, THEN conjunct1]
  note J = T [THEN conjunct2, THEN conjunct2, THEN conjunct2, THEN conjunct2, THEN conjunct2,
              THEN conjunct2, THEN conjunct2, THEN conjunct2, THEN conjunct2]
  have r: "\<exists>m'. goto_loop 10 (\<lambda>n. True) 15 (- 5) origin = Some (Inr m') \<and>
         current_x m' = 15 \<and> current_y m' = - 5" by (rule iffD2 [OF C b])
  have e: "goto_loop 10 (\<lambda>n. True) 15 (- 5) origin \<noteq> Some (Inl OverflowError)"
  proof
    assume "goto_loop 10 (\<lambda>n. True) 15 (- 5) origin = Some (Inl OverflowError)"
    with r show False by auto
  qed
  have nx: "15 \<noteq> current_x origin" by (simp add: origin_def)
  from I [rule_format, OF s1] have
    "15 \<noteq> current_x origin \<longrightarrow> \<bar>15 - current_x ?M1\<bar> < \<bar>15 - current_x origin\<bar>"
    by (rule conjunct2 [THEN conjunct1])
  then have "\<bar>15 - current_x ?M1\<bar> < \<bar>15 - current_x origin\<bar>" using nx by (rule mp)
  then have dec: "\<bar>15 - (10::int)\<bar> < \<bar>15 - current_x origin\<bar>" by simp
  have nz: "(15::int) \<noteq> 0 \<or> (- 5::int) \<noteq> 0" by simp
  from J [rule_format, OF conjI [OF nz conjI [OF ax ay]]]
  have st: "goto_finetune_loop 10 (\<lambda>n. True) 15 (- 5) origin =
     goto_finetune_loop 10 (\<lambda>n. True) (15 - 10) (- 5 - (- 5)) (send (\<lambda>n. True) 10 (- 5) origin)"
    by (rule conjunct1)
  have f: "\<exists>m' ms. goto_finetune_loop 10 (\<lambda>n. True) 15 (- 5) origin = Some (Inr m') \<and>
         moves m' = moves origin @ ms \<and> sum_list (map fst ms) = 15 \<and> sum_list (map snd ms) = - 5"
    by (rule iffD2 [OF F b'])
  have g: "\<exists>m'. goto_finetune (\<lambda>n. True) 15 (- 5) origin = Some (Inr m') \<and>
         current_x m' = 15 \<and> current_y m' = - 5" by (rule iffD2 [OF H b])
  show ?thesis
    by (intro conjI) (rule d b [THEN conjunct1] b [THEN conjunct2] s1 dec r e ax ay st f g)+
qed

lemma for_each_inv:
  assumes "for_each xs body s = Inr s'" and "P s"
    and "\<And>x u u'. x \<in> set xs \<Longrightarrow> P u \<Longrightarrow> body x u = Inr u' \<Longrightarrow> P u'"
  shows "P s'"
  using assms
proof (induction xs arbitrary: s)
  case Nil
  then show ?case by simp
next
  case (Cons x xs)
  from Cons.prems(1) obtain s1 where b: "body x s = Inr s1" and r: "for_each xs body s1 = Inr s'"
    by (auto split: sum.splits)
  have "P s1" using Cons.prems(3) [OF _ Cons.prems(2) b] by simp
  then show ?case
  proof (rule Cons.IH [OF r])
    fix y u u'
    assume "y \<in> set xs" and "P u" and "body y u = Inr u'"
    then show "P u'" using Cons.prems(3) [of y u u'] by simp
  qed
qed

lemma chain_snoc: "chain (p @ [x]) \<longleftrightarrow> chain p \<and> (p = [] \<or> adjacent (last p) x)"
  by (induction p rule: chain.induct) auto

lemma neighbors_adjacent:
  assumes "n \<in> set (get_neighbors row col)"
  shows "adjacent (row, col) n \<and> 0 \<le> fst n \<and> 0 \<le> snd n"
  using assms
  by (auto simp: get_neighbors_def get_neighbors_in_def adjacent_def Let_def split: if_splits)

lemma py_index_nonneg:
  "0 \<le> i \<Longrightarrow> py_index xs i = Inr x \<Longrightarrow> i < int (length xs) \<and> x = xs ! nat i"
  by (auto simp: py_index_def Let_def split: if_splits)

lemma board_at_on_board:
  assumes "0 \<le> row" and "0 \<le> col" and "board_at board row col = Inr ch"
  shows "on_board board (row, col) \<and> letter_at board (row, col) = ch"
proof -
  from assms(3) obtain r where r: "py_index board row = Inr r" and c: "py_index r col = Inr ch"
    by (auto simp: board_at_def split: sum.splits)
  from py_index_nonneg [OF assms(1) r] py_index_nonneg [OF assms(2) c]
  show ?thesis using assms(1,2) by (simp add: on_board_def letter_at_def)
qed

lemma all_valid_record:
  "all_valid board st \<Longrightarrow> valid_path board w p \<Longrightarrow> all_valid board (record_word w p st)"
  by (auto simp: all_valid_def record_word_def)

lemma dfs_valid:
  assumes "dfs row col board node visited w p st = Inr st'"
    and "0 \<le> row" and "0 \<le> col" and "valid_path board w p" and "set p \<subseteq> visited"
    and "(row, col) \<notin> visited" and "p = [] \<or> adjacent (last p) (row, col)"
    and "all_valid board st"
  shows "all_valid board st'"
  using assms
proof (induction row col board node visited w p st arbitrary: st' rule: dfs.induct)
  case (1 row col board node visited w p st)
  show ?case
  proof (cases "board_at board row col")
    case (Inl e)
    then show ?thesis using "1.prems"(1) by (subst (asm) dfs.simps) simp
  next
    case (Inr letter)
    note letter = Inr
    show ?thesis
    proof (cases "map_of node letter")
      case None
      then show ?thesis using "1.prems"(1,8) letter by (subst (asm) dfs.simps) simp
    next
      case (Some t)
      show ?thesis
      proof (cases t)
        case PyTrue
        then show ?thesis using "1.prems"(1) letter Some by (subst (asm) dfs.simps) simp
      next
        case (Dict next_node)
        show ?thesis
        proof (cases "next_node = []")
          case True
          then show ?thesis using "1.prems"(1,8) letter Some Dict
            by (subst (asm) dfs.simps) simp
        next
          case False
          define visited' where "visited' = insert (row, col) visited"
          define word' where "word' = w @ [letter]"
          define path' where "path' = p @ [(row, col)]"
          define st1 where "st1 = (if CHR ''$'' \<in> fst ` set next_node \<and> 3 \<le> length word'
                                   then record_word word' path' st else st)"
          have "dfs row col board node visited w p st =
                  for_each (get_neighbors row col)
                       (\<lambda>n s. if n \<notin> visited'
                               then dfs (fst n) (snd n) board next_node visited' word' path' s
                               else Inr s) st1"
            unfolding visited'_def word'_def path'_def st1_def
            by (subst dfs.simps) (simp add: letter Some Dict False Let_def)
          then have run: "for_each (get_neighbors row col)
                       (\<lambda>n s. if n \<notin> visited'
                               then dfs (fst n) (snd n) board next_node visited' word' path' s
                               else Inr s) st1 = Inr st'"
            using "1.prems"(1) by simp
          from board_at_on_board [OF "1.prems"(2,3) letter]
          have ob: "on_board board (row, col)" and la: "letter_at board (row, col) = letter"
            by simp_all
          have vp: "valid_path board word' path'"
            using "1.prems"(4,5,6,7) ob la
            by (auto simp: valid_path_def word'_def path'_def chain_snoc)
          have sub: "set path' \<subseteq> visited'"
            using "1.prems"(5) by (auto simp: path'_def visited'_def)
          have v1: "all_valid board st1"
            using "1.prems"(8) vp by (simp add: st1_def all_valid_record)
          show ?thesis
          proof (rule for_each_inv [OF run, where P = "all_valid board"])
            show "all_valid board st1" by (rule v1)
          next
            fix n u u'
            assume n: "n \<in> set (get_neighbors row col)" and u: "all_valid board u"
              and b: "(if n \<notin> visited'
                       then dfs (fst n) (snd n) board next_node visited' word' path' u
                       else Inr u) = Inr u'"
            show "all_valid board u'"
            proof (cases "n \<in> visited'")
              case True
              then show ?thesis using b u by simp
            next
              case nv: False
              then have d: "dfs (fst n) (snd n) board next_node visited' word' path' u = Inr u'"
                using b by simp
              from neighbors_adjacent [OF n]
              have adj: "adjacent (row, col) n" and nn: "0 \<le> fst n" "0 \<le> snd n" by simp_all
              have lastp: "path' = [] \<or> adjacent (last path') (fst n, snd n)"
                using adj by (simp add: path'_def)
              show ?thesis
                by (rule "1.IH" [OF letter Some Dict False visited'_def word'_def path'_def
                      st1_def n nv d nn vp sub _ lastp u]) (use nv in simp)
            qed
          qed
        qed
      qed
    qed
  qed
qed

lemma map_of_snoc:
  "map_of (xs @ [(w, p)]) = (if map_of xs w = None then (map_of xs)(w \<mapsto> p) else map_of xs)"
  by (auto simp: map_add_def fun_eq_iff split: option.splits)

lemma consistent_record: "consistent st \<Longrightarrow> consistent (record_word w p st)"
  by (auto simp: consistent_def record_word_def map_add_def fun_eq_iff split: option.splits)

lemma extends_refl: "extends st st"
  by (simp add: extends_def)

lemma extends_trans: "extends a b \<Longrightarrow> extends b c \<Longrightarrow> extends a c"
  by (auto simp: extends_def)

lemma extends_record: "extends st (record_word w p st)"
  by (simp add: extends_def record_word_def)

lemma dfs_trace:
  assumes "dfs row col board node visited w p st = Inr st'" and "consistent st"
  shows "consistent st' \<and> extends st st'"
  using assms
proof (induction row col board node visited w p st arbitrary: st' rule: dfs.induct)
  case (1 row col board node visited w p st)
  show ?case
  proof (cases "board_at board row col")
    case (Inl e)
    then show ?thesis using "1.prems"(1) by (subst (asm) dfs.simps) simp
  next
    case (Inr letter)
    note letter = Inr
    show ?thesis
    proof (cases "map_of node letter")
      case None
      then show ?thesis using "1.prems" letter
        by (subst (asm) dfs.simps) (simp add: extends_refl)
    next
      case (Some t)
      show ?thesis
      proof (cases t)
        case PyTrue
        then show ?thesis using "1.prems"(1) letter Some by (subst (asm) dfs.simps) simp
      next
        case (Dict next_node)
        show ?thesis
        proof (cases "next_node = []")
          case True
          then show ?thesis using "1.prems" letter Some Dict
            by (subst (asm) dfs.simps) (simp add: extends_refl)
        next
          case False
          define visited' where "visited' = insert (row, col) visited"
          define word' where "word' = w @ [letter]"
          define path' where "path' = p @ [(row, col)]"
          define st1 where "st1 = (if CHR ''$'' \<in> fst ` set next_node \<and> 3 \<le> length word'
                                   then record_word word' path' st else st)"
          have "dfs row col board node visited w p st =
                  for_each (get_neighbors row col)
                       (\<lambda>n s. if n \<notin> visited'
                               then dfs (fst n) (snd n) board next_node visited' word' path' s
                               else Inr s) st1"
            unfolding visited'_def word'_def path'_def st1_def
            by (subst dfs.simps) (simp add: letter Some Dict False Let_def)
          then have run: "for_each (get_neighbors row col)
                       (\<lambda>n s. if n \<notin> visited'
                               then dfs (fst n) (snd n) board next_node visited' word' path' s
                               else Inr s) st1 = Inr st'"
            using "1.prems"(1) by simp
          have c1: "consistent st1 \<and> extends st st1"
            using "1.prems"(2) by (simp add: st1_def consistent_record extends_record extends_refl)
          show ?thesis
          proof (rule for_each_inv [OF run, where P = "\<lambda>s. consistent s \<and> extends st s"])
            show "consistent st1 \<and> extends st st1" by (rule c1)
          next
            fix n u u'
            assume n: "n \<in> set (get_neighbors row col)"
              and u: "consistent u \<and> extends st u"
              and b: "(if n \<notin> visited'
                       then dfs (fst n) (snd n) board next_node visited' word' path' u
                       else Inr u) = Inr u'"
            show "consistent u' \<and> extends st u'"
            proof (cases "n \<in> visited'")
              case True
              then show ?thesis using b u by simp
            next
              case nv: False
              then have d: "dfs (fst n) (snd n) board next_node visited' word' path' u = Inr u'"
                using b by simp
              from u have cu: "consistent u" by simp
              have "consistent u' \<and> extends u u'"
                by (rule "1.IH" [OF letter Some Dict False visited'_def word'_def path'_def
                      st1_def n nv d cu])
              then show ?thesis using u extends_trans by blast
            qed
          qed
        qed
      qed
    qed
  qed
qed

lemma solve_invariants:
  assumes "solve board trie = Inr st"
  shows "all_valid board st \<and> consistent st"
proof -
  let ?P = "\<lambda>s. all_valid board s \<and> consistent s"
  have P0: "?P empty_state"
    by (simp add: all_valid_def consistent_def empty_state_def)
  have valid_nil: "valid_path board [] []" by (simp add: valid_path_def)
  show ?thesis
  proof (rule for_each_inv [OF assms [unfolded solve_def], where P = ?P])
    show "?P empty_state" by (rule P0)
  next
    fix row u u'
    assume u: "?P u"
      and body: "(case py_index board 0 of Inl e \<Rightarrow> Inl e
                 | Inr row0 \<Rightarrow> for_each [0..<length row0]
                       (\<lambda>col s'. dfs (int row) (int col) board (valid_starts trie board) {} [] [] s')
                       u) = Inr u'"
    obtain row0 where row0: "py_index board 0 = Inr row0"
      using body by (cases "py_index board 0") simp_all
    have inner: "for_each [0..<length row0]
                (\<lambda>col s'. dfs (int row) (int col) board (valid_starts trie board) {} [] [] s') u
              = Inr u'"
      using body by (simp add: row0)
    show "?P u'"
    proof (rule for_each_inv [OF inner, where P = ?P])
      show "?P u" by (rule u)
    next
      fix col v v'
      assume v: "?P v"
        and d: "dfs (int row) (int col) board (valid_starts trie board) {} [] [] v = Inr v'"
      have "all_valid board v'"
        by (rule dfs_valid [OF d _ _ valid_nil]) (use v in simp_all)
      moreover have "consistent v'" using dfs_trace [OF d] v by simp
      ultimately show "?P v'" by simp
    qed
  qed
qed

lemma lookup_paths_Inr:
  "lookup_paths ps ws = Inr out \<Longrightarrow>
     map word out = ws \<and> (\<forall>r \<in> set out. ps (word r) = Some (coordinates r))"
  by (induction ws arbitrary: out) (auto split: option.splits sum.splits)

lemma lookup_paths_total:
  "set ws \<subseteq> dom ps \<Longrightarrow> \<exists>out. lookup_paths ps ws = Inr out"
proof (induction ws)
  case Nil
  then show ?case by simp
next
  case (Cons w ws)
  then obtain p out where "ps w = Some p" and "lookup_paths ps ws = Inr out" by auto
  then show ?case by simp
qed

lemma first_discovery_map_of: "first_discovery w ds = map_of ds w"
  by (induction ds) (auto simp: first_discovery_def)

lemma rank_key_less: "rank_key a < rank_key b \<longleftrightarrow> ranks_before a b"
  by (auto simp: rank_key_def ranks_before_def less_prod_def)

lemma rank_key_inj: "inj rank_key"
  by (rule injI) (simp add: rank_key_def)

lemma sort_key_ranked:
  assumes "distinct xs"
  shows "sorted_wrt ranks_before (sort_key rank_key xs)"
proof -
  let ?ys = "sort_key rank_key xs"
  have "sorted (map rank_key ?ys)" by (rule sorted_sort_key)
  moreover have "distinct (map rank_key ?ys)"
    using assms rank_key_inj by (simp add: distinct_map inj_on_def inj_def)
  ultimately have "sorted_wrt (<) (map rank_key ?ys)" by (simp add: strict_sorted_iff)
  then show ?thesis by (simp add: sorted_wrt_map rank_key_less)
qed

lemma sort_key_unique:
  assumes "distinct xs" and "distinct ys" and "set xs = set ys"
  shows "sort_key rank_key xs = sort_key rank_key ys"
proof -
  let ?a = "sort_key rank_key xs" and ?b = "sort_key rank_key ys"
  have inj: "inj_on rank_key A" for A using rank_key_inj by (rule inj_on_subset) simp
  have "map rank_key ?a = map rank_key ?b"
  proof (rule sorted_distinct_set_unique)
    show "sorted (map rank_key ?a)" "sorted (map rank_key ?b)" by (rule sorted_sort_key)+
    show "distinct (map rank_key ?a)" using assms(1) inj by (simp add: distinct_map)
    show "distinct (map rank_key ?b)" using assms(2) inj by (simp add: distinct_map)
    show "set (map rank_key ?a) = set (map rank_key ?b)" using assms(3) by simp
  qed
  then show ?thesis using rank_key_inj by (simp add: inj_map_eq_map)
qed

lemma sorted_wrt_take_drop:
  "sorted_wrt R xs \<Longrightarrow> \<forall>v \<in> set (take n xs). \<forall>w \<in> set (drop n xs). R v w"
  using sorted_wrt_append [of R "take n xs" "drop n xs"] by simp

lemma select_words_Inr:
  assumes "select_words it st = Inr out"
  shows "map word out = take SOLVER_NUMWORDS_LIMIT (sort_key rank_key (it (results st))) \<and>
         (\<forall>r \<in> set out. paths st (word r) = Some (coordinates r))"
  using lookup_paths_Inr [of "paths st" _ out] assms by (simp add: select_words_def Let_def)

lemma select_words_total:
  assumes "set (it (results st)) \<subseteq> dom (paths st)"
  shows "\<exists>out. select_words it st = Inr out"
proof -
  have "set (take SOLVER_NUMWORDS_LIMIT (sort_key rank_key (it (results st)))) \<subseteq> dom (paths st)"
    using assms set_take_subset [of SOLVER_NUMWORDS_LIMIT "sort_key rank_key (it (results st))"]
    by auto
  then show ?thesis unfolding select_words_def Let_def by (rule lookup_paths_total)
qed

lemma consistent_dom: "consistent st \<Longrightarrow> dom (paths st) = results st"
  by (auto simp: consistent_def dom_map_of_conv_image_fst)

lemma select_words_sorted:
  assumes "select_words it st = Inr out" and "iterates it (results st)"
  shows "sorted_wrt ranks_before (map word out) \<and>
         set (map word out) \<subseteq> results st \<and>
         length out = min SOLVER_NUMWORDS_LIMIT (card (results st)) \<and>
         (\<forall>v \<in> set (map word out). \<forall>w \<in> results st - set (map word out). ranks_before v w)"
proof -
  let ?s = "sort_key rank_key (it (results st))"
  from select_words_Inr [OF assms(1)] have m: "map word out = take SOLVER_NUMWORDS_LIMIT ?s" by simp
  from assms(2) have d: "distinct (it (results st))" and s: "set (it (results st)) = results st"
    by (simp_all add: iterates_def)
  have srt: "sorted_wrt ranks_before ?s" using d by (rule sort_key_ranked)
  have 1: "sorted_wrt ranks_before (map word out)"
    unfolding m using srt by (rule sorted_wrt_take)
  have 2: "set (map word out) \<subseteq> results st"
    unfolding m using set_take_subset [of SOLVER_NUMWORDS_LIMIT ?s] s by auto
  have "length (it (results st)) = card (results st)" using d s distinct_card by fastforce
  then have "length (map word out) = min SOLVER_NUMWORDS_LIMIT (card (results st))"
    unfolding m by (simp add: min.commute)
  then have 3: "length out = min SOLVER_NUMWORDS_LIMIT (card (results st))" by simp
  have 4: "\<forall>v \<in> set (map word out). \<forall>w \<in> results st - set (map word out). ranks_before v w"
  proof (intro ballI)
    fix v w
    assume v: "v \<in> set (map word out)" and w: "w \<in> results st - set (map word out)"
    have "set ?s = set (take SOLVER_NUMWORDS_LIMIT ?s) \<union> set (drop SOLVER_NUMWORDS_LIMIT ?s)"
      by (metis append_take_drop_id set_append)
    then have "w \<in> set (drop SOLVER_NUMWORDS_LIMIT ?s)" using w s unfolding m by auto
    then show "ranks_before v w" using sorted_wrt_take_drop [OF srt] v unfolding m by blast
  qed
  from 1 2 3 4 show ?thesis by simp
qed

lemma find_words_det:
  assumes "solve board trie = Inr st" and "iterates it1 (results st)" and "iterates it2 (results st)"
  shows "find_words it1 board trie = find_words it2 board trie"
proof -
  have "sort_key rank_key (it1 (results st)) = sort_key rank_key (it2 (results st))"
    using assms(2,3) by (intro sort_key_unique) (simp_all add: iterates_def)
  then show ?thesis by (simp add: find_words_def assms(1) select_words_def)
qed

lemma find_words_fail:
  "solve board trie = Inl e \<Longrightarrow> find_words it board trie = Inl e"
  by (simp add: find_words_def)

lemma find_words_total:
  assumes "solve board trie = Inr st" and "iterates it (results st)"
  shows "\<exists>out. find_words it board trie = Inr out"
proof -
  from solve_invariants [OF assms(1)] have "consistent st" by simp
  then have "set (it (results st)) \<subseteq> dom (paths st)"
    using assms(2) by (simp add: consistent_dom iterates_def)
  then have "\<exists>out. select_words it st = Inr out" by (rule select_words_total)
  then show ?thesis by (simp add: find_words_def assms(1))
qed

lemma record_word_keeps: "paths st w = Some p \<Longrightarrow> paths (record_word v q st) w = Some p"
  by (auto simp: record_word_def)

lemma for_each_keeps:
  assumes "for_each xs body s = Inr s'" and "paths s w = Some p"
    and "\<And>x u u'. x \<in> set xs \<Longrightarrow> paths u w = Some p \<Longrightarrow> body x u = Inr u' \<Longrightarrow> paths u' w = Some p"
  shows "paths s' w = Some p"
  by (rule for_each_inv [OF assms(1), where P = "\<lambda>u. paths u w = Some p"]) (use assms in auto)

lemma dfs_inv:
  assumes "dfs row col board node visited w p st = Inr st'" and "P st"
    and rec: "\<And>v q s. P s \<Longrightarrow> P (record_word v q s)"
  shows "P st'"
  using assms(1,2)
proof (induction row col board node visited w p st arbitrary: st' rule: dfs.induct)
  case (1 row col board node visited w p st)
  show ?case
  proof (cases "board_at board row col")
    case (Inl e)
    then show ?thesis using "1.prems"(1) by (subst (asm) dfs.simps) simp
  next
    case (Inr letter)
    note letter = Inr
    show ?thesis
    proof (cases "map_of node letter")
      case None
      then show ?thesis using "1.prems" letter by (subst (asm) dfs.simps) simp
    next
      case (Some t)
      show ?thesis
      proof (cases t)
        case PyTrue
        then show ?thesis using "1.prems"(1) letter Some by (subst (asm) dfs.simps) simp
      next
        case (Dict next_node)
        show ?thesis
        proof (cases "next_node = []")
          case True
          then show ?thesis using "1.prems" letter Some Dict by (subst (asm) dfs.simps) simp
        next
          case False
          define visited' where "visited' = insert (row, col) visited"
          define word' where "word' = w @ [letter]"
          define path' where "path' = p @ [(row, col)]"
          define st1 where "st1 = (if CHR ''$'' \<in> fst ` set next_node \<and> 3 \<le> length word'
                                   then record_word word' path' st else st)"
          have "dfs row col board node visited w p st =
                  for_each (get_neighbors row col)
                       (\<lambda>n s. if n \<notin> visited'
                               then dfs (fst n) (snd n) board next_node visited' word' path' s
                               else Inr s) st1"
            unfolding visited'_def word'_def path'_def st1_def
            by (subst dfs.simps) (simp add: letter Some Dict False Let_def)
          then have run: "for_each (get_neighbors row col)
                       (\<lambda>n s. if n \<notin> visited'
                               then dfs (fst n) (snd n) board next_node visited' word' path' s
                               else Inr s) st1 = Inr st'"
            using "1.prems"(1) by simp
          have c1: "P st1" using "1.prems"(2) rec by (simp add: st1_def)
          show ?thesis
          proof (rule for_each_inv [OF run, where P = P])
            show "P st1" by (rule c1)
          next
            fix n u u'
            assume n: "n \<in> set (get_neighbors row col)"
              and u: "P u"
              and b: "(if n \<notin> visited'
                       then dfs (fst n) (snd n) board next_node visited' word' path' u
                       else Inr u) = Inr u'"
            show "P u'"
            proof (cases "n \<in> visited'")
              case True
              then show ?thesis using b u by simp
            next
              case nv: False
              then have d: "dfs (fst n) (snd n) board next_node visited' word' path' u = Inr u'"
                using b by simp
              show ?thesis
                by (rule "1.IH" [OF letter Some Dict False visited'_def word'_def path'_def
                      st1_def n nv d u])
            qed
          qed
        qed
      qed
    qed
  qed
qed

lemma dfs_keeps:
  assumes "dfs row col board node visited cw cp s = Inr s'" and "paths s w = Some p"
  shows "paths s' w = Some p"
  by (rule dfs_inv [OF assms(1), where P = "\<lambda>u. paths u w = Some p"])
     (use assms(2) record_word_keeps in auto)

lemma dfs_extends:
  assumes "dfs row col board node visited cw cp s = Inr s'"
  shows "extends s s'"
proof (rule dfs_inv [OF assms, where P = "extends s"])
  show "extends s s" by (rule extends_refl)
next
  fix v q u assume "extends s u"
  then show "extends s (record_word v q u)" using extends_record extends_trans by blast
qed

lemma demo_run:
  "(case solve demo_board demo_trie of Inl e \<Rightarrow> False
    | Inr st \<Rightarrow> discovered st = demo_discovered)"
  by code_simp

lemma demo_paths: "map_of demo_discovered = paths demo_state"
  by (rule ext) (simp add: demo_discovered_def demo_state_def)

lemma demo_solve: "solve demo_board demo_trie = Inr demo_state"
proof -
  from demo_run obtain st where st: "solve demo_board demo_trie = Inr st"
    and d: "discovered st = demo_discovered"
    by (cases "solve demo_board demo_trie") simp_all
  from solve_invariants [OF st] have c: "consistent st" by simp
  have "paths st = paths demo_state" using c d by (simp add: consistent_def demo_paths)
  moreover have "results st = results demo_state"
    using c d by (auto simp: consistent_def demo_discovered_def demo_state_def)
  moreover have "discovered st = discovered demo_state" using d by (simp add: demo_state_def)
  ultimately have "st = demo_state" by simp
  then show ?thesis using st by simp
qed

lemma demo_find_up: "find_words sorted_list_of_set demo_board demo_trie = Inr demo_out"
  by code_simp

lemma demo_find_down: "find_words (\<lambda>S. rev (sorted_list_of_set S)) demo_board demo_trie = Inr demo_out"
  by code_simp

lemma demo_again:
  "(case dfs 0 0 demo_board (valid_starts demo_trie demo_board) {} [] [] demo_state of
      Inl e \<Rightarrow> False
    | Inr s' \<Rightarrow> discovered s' = demo_discovered @
        [(''the'', [(0, 0), (0, 1), (1, 1)]), (''the'', [(0, 0), (1, 0), (1, 1)])])"
  by code_simp

lemma sample_select:
  "select_words (\<lambda>S. [''abd'', ''abcd'', ''abc'']) sample_state =
     Inr [\<lparr>word = ''abcd'', coordinates = [(0, 0), (0, 1), (0, 2), (1, 1)]\<rparr>,
          \<lparr>word = ''abc'', coordinates = [(0, 0), (0, 1), (0, 2)]\<rparr>,
          \<lparr>word = ''abd'', coordinates = [(0, 0), (0, 1), (1, 1)]\<rparr>]"
  by code_simp

subsection \<open>The claims on the word finder\<close>

text \<open>
  Claim C1. For every board and trie (and every iteration order of the result set), every
  entry of the list that \<open>find_words\<close> returns is a word with a path such that every
  cell of the path is a cell of the board, the board letters along the path spell exactly
  the word, no cell occurs twice in the path, and consecutive cells are 8-adjacent.
\<close>

theorem find_words_paths_valid:
  assumes "find_words it board trie = Inr out"
  shows "\<forall>r \<in> set out. valid_path board (word r) (coordinates r)"
proof -
  from assms obtain st where st: "solve board trie = Inr st" and sel: "select_words it st = Inr out"
    by (auto simp: find_words_def split: sum.splits)
  from solve_invariants [OF st] have v: "all_valid board st" and c: "consistent st" by simp_all
  from sel obtain ws where "lookup_paths (paths st) ws = Inr out"
    by (simp add: select_words_def Let_def)
  from lookup_paths_Inr [OF this]
  have look: "\<forall>r \<in> set out. paths st (word r) = Some (coordinates r)" by simp
  show ?thesis
  proof
    fix r assume "r \<in> set out"
    with look have "map_of (discovered st) (word r) = Some (coordinates r)"
      using c by (simp add: consistent_def)
    then have "(word r, coordinates r) \<in> set (discovered st)" by (rule map_of_SomeD)
    then show "valid_path board (word r) (coordinates r)" using v by (auto simp: all_valid_def)
  qed
qed

text \<open>
  Claim C1, witness: on \<open>demo_board\<close> with the trie of \<open>the\<close> and \<open>hex\<close> the word finder
  returns both words, and their paths are valid.
\<close>

theorem find_words_paths_valid_witness:
  "find_words sorted_list_of_set demo_board demo_trie = Inr demo_out \<and>
   valid_path demo_board ''hex'' [(0, 1), (1, 1), (0, 2)] \<and>
   valid_path demo_board ''the'' [(0, 0), (0, 1), (1, 1)]"
  using find_words_paths_valid [OF demo_find_up] demo_find_up by (simp add: demo_out_def)

text \<open>
  Claim C5. When the search is over, \<open>paths\<close> maps every word to the path of its first
  discovery in the order of the search and holds exactly the words of \<open>results\<close>; a
  recorded path survives every later step: \<open>record_word\<close> on a word that has a path leaves
  it, and so does every call of \<open>dfs\<close>, which only appends to the trace of discoveries;
  and the path that \<open>find_words\<close> returns with a word is that first discovery, each word
  being returned once.
\<close>

theorem first_path_retained:
  "(solve board trie = Inr st \<longrightarrow>
      (\<forall>w. paths st w = first_discovery w (discovered st)) \<and>
      dom (paths st) = results st \<and> results st = fst ` set (discovered st)) \<and>
   (paths s w = Some p \<longrightarrow> paths (record_word w q s) w = Some p) \<and>
   (dfs row col board node visited cw cp s = Inr s' \<and> paths s w = Some p \<longrightarrow>
      paths s' w = Some p \<and> (\<exists>more. discovered s' = discovered s @ more)) \<and>
   (find_words it board trie = Inr out \<longrightarrow>
      (\<exists>st. solve board trie = Inr st \<and>
         (\<forall>r \<in> set out. first_discovery (word r) (discovered st) = Some (coordinates r)) \<and>
         (distinct (it (results st)) \<longrightarrow> distinct (map word out))))"
proof (intro conjI impI)
  assume st: "solve board trie = Inr st"
  from solve_invariants [OF st] have c: "consistent st" by simp
  show "\<forall>w. paths st w = first_discovery w (discovered st)"
    using c by (simp add: consistent_def first_discovery_map_of)
  show "dom (paths st) = results st" using c by (rule consistent_dom)
  show "results st = fst ` set (discovered st)" using c by (simp add: consistent_def)
next
  assume "paths s w = Some p"
  then show "paths (record_word w q s) w = Some p" by (rule record_word_keeps)
next
  assume a: "dfs row col board node visited cw cp s = Inr s' \<and> paths s w = Some p"
  then show "paths s' w = Some p" using dfs_keeps by blast
  from a show "\<exists>more. discovered s' = discovered s @ more"
    using dfs_extends [of row col board node visited cw cp s s'] by (simp add: extends_def)
next
  assume f: "find_words it board trie = Inr out"
  then obtain st where st: "solve board trie = Inr st" and sel: "select_words it st = Inr out"
    by (auto simp: find_words_def split: sum.splits)
  from solve_invariants [OF st] have c: "consistent st" by simp
  from select_words_Inr [OF sel]
  have m: "map word out = take SOLVER_NUMWORDS_LIMIT (sort_key rank_key (it (results st)))"
    and look: "\<forall>r \<in> set out. paths st (word r) = Some (coordinates r)" by simp_all
  have 1: "\<forall>r \<in> set out. first_discovery (word r) (discovered st) = Some (coordinates r)"
    using look c by (simp add: consistent_def first_discovery_map_of)
  have 2: "distinct (it (results st)) \<longrightarrow> distinct (map word out)"
    unfolding m by (simp add: distinct_take)
  from st 1 2
  show "\<exists>st. solve board trie = Inr st \<and>
         (\<forall>r \<in> set out. first_discovery (word r) (discovered st) = Some (coordinates r)) \<and>
         (distinct (it (results st)) \<longrightarrow> distinct (map word out))"
    by blast
qed

text \<open>
  Claim C5, witness: on \<open>demo_board\<close> the word \<open>the\<close> is discovered first through the
  \<open>h\<close> at (0, 1) and then through the \<open>h\<close> at (1, 0); the path through (0, 1) is the one
  in \<open>paths\<close>, it is still there after the search has run again from the cell (0, 0) and
  discovered \<open>the\<close> twice more, and it is the one returned.
\<close>

theorem first_path_retained_witness:
  "solve demo_board demo_trie = Inr demo_state \<and>
   take 2 (discovered demo_state) =
     [(''the'', [(0, 0), (0, 1), (1, 1)]), (''the'', [(0, 0), (1, 0), (1, 1)])] \<and>
   paths demo_state ''the'' = Some [(0, 0), (0, 1), (1, 1)] \<and>
   first_discovery ''the'' (discovered demo_state) = Some [(0, 0), (0, 1), (1, 1)] \<and>
   (\<exists>s'. dfs 0 0 demo_board (valid_starts demo_trie demo_board) {} [] [] demo_state = Inr s' \<and>
      discovered s' = discovered demo_state @
        [(''the'', [(0, 0), (0, 1), (1, 1)]), (''the'', [(0, 0), (1, 0), (1, 1)])] \<and>
      paths s' ''the'' = Some [(0, 0), (0, 1), (1, 1)]) \<and>
   find_words sorted_list_of_set demo_board demo_trie = Inr demo_out \<and>
   distinct (map word demo_out)"
proof -
  have p: "paths demo_state ''the'' = Some [(0, 0), (0, 1), (1, 1)]"
    by (simp add: demo_state_def)
  have t: "take 2 (discovered demo_state) =
     [(''the'', [(0, 0), (0, 1), (1, 1)]), (''the'', [(0, 0), (1, 0), (1, 1)])]"
    by (simp add: demo_state_def demo_discovered_def)
  from demo_again obtain s' where
    run: "dfs 0 0 demo_board (valid_starts demo_trie demo_board) {} [] [] demo_state = Inr s'"
    and d: "discovered s' = discovered demo_state @
        [(''the'', [(0, 0), (0, 1), (1, 1)]), (''the'', [(0, 0), (1, 0), (1, 1)])]"
    by (cases "dfs 0 0 demo_board (valid_starts demo_trie demo_board) {} [] [] demo_state")
       (simp_all add: demo_state_def)
  note T = first_path_retained [where board = demo_board and trie = demo_trie
      and st = demo_state and s = demo_state and w = "''the''"
      and p = "[(0, 0), (0, 1), (1, 1)]" and row = 0 and col = 0
      and node = "valid_starts demo_trie demo_board" and visited = "{}" and cw = "[]"
      and cp = "[]" and s' = s' and it = sorted_list_of_set and out = demo_out]
  from T demo_solve have f: "first_discovery ''the'' (discovered demo_state) = paths demo_state ''the''"
    by simp
  from T run p have k: "paths s' ''the'' = Some [(0, 0), (0, 1), (1, 1)]" by blast
  have "distinct (map word demo_out)" by (simp add: demo_out_def)
  then show ?thesis using demo_solve t p f run d k demo_find_up by auto
qed

text \<open>
  Claim C4. Whenever the result selector returns, on a state whose result set is iterated
  in any order (each word once), the words of the output are in ranking order: of any two
  entries the earlier one is longer, or of the same length and lexicographically smaller;
  they are result words; their number is the smaller of 500 and the number of result
  words; and every result word left out ranks after every word of the output. The
  selector returns whenever every result word has a path, and so does \<open>find_words\<close>
  whenever the search returns.
\<close>

theorem results_sorted_limited:
  "(select_words it st = Inr out \<and> iterates it (results st) \<longrightarrow>
      sorted_wrt ranks_before (map word out) \<and>
      set (map word out) \<subseteq> results st \<and>
      length out = min 500 (card (results st)) \<and>
      (\<forall>v \<in> set (map word out). \<forall>w \<in> results st - set (map word out). ranks_before v w)) \<and>
   (iterates it (results st) \<and> results st \<subseteq> dom (paths st) \<longrightarrow>
      (\<exists>out. select_words it st = Inr out)) \<and>
   (solve board trie = Inr st \<and> iterates it (results st) \<longrightarrow>
      (\<exists>out. find_words it board trie = Inr out \<and> select_words it st = Inr out))"
proof (intro conjI impI)
  assume a: "select_words it st = Inr out \<and> iterates it (results st)"
  then have sel: "select_words it st = Inr out" and i: "iterates it (results st)" by simp_all
  note S = select_words_sorted [OF sel i]
  from S show "sorted_wrt ranks_before (map word out)" by simp
  from S show "set (map word out) \<subseteq> results st" by simp
  from S show "length out = min 500 (card (results st))" by (simp add: SOLVER_NUMWORDS_LIMIT_def)
  from S show "\<forall>v \<in> set (map word out). \<forall>w \<in> results st - set (map word out). ranks_before v w"
    by simp
next
  assume "iterates it (results st) \<and> results st \<subseteq> dom (paths st)"
  then have "set (it (results st)) \<subseteq> dom (paths st)" by (simp add: iterates_def)
  then show "\<exists>out. select_words it st = Inr out" by (rule select_words_total)
next
  assume a: "solve board trie = Inr st \<and> iterates it (results st)"
  then have st: "solve board trie = Inr st" and i: "iterates it (results st)" by simp_all
  from find_words_total [OF st i] obtain out where "find_words it board trie = Inr out" by blast
  then show "\<exists>out. find_words it board trie = Inr out \<and> select_words it st = Inr out"
    by (simp add: find_words_def st)
qed

text \<open>
  Claim C4, witness: the result words \<open>abd\<close>, \<open>abcd\<close>, \<open>abc\<close>, iterated in this order, are
  returned as \<open>abcd\<close>, \<open>abc\<close>, \<open>abd\<close>.
\<close>

theorem results_sorted_limited_witness:
  "iterates (\<lambda>S. [''abd'', ''abcd'', ''abc'']) (results sample_state) \<and>
   results sample_state \<subseteq> dom (paths sample_state) \<and>
   select_words (\<lambda>S. [''abd'', ''abcd'', ''abc'']) sample_state =
     Inr [\<lparr>word = ''abcd'', coordinates = [(0, 0), (0, 1), (0, 2), (1, 1)]\<rparr>,
          \<lparr>word = ''abc'', coordinates = [(0, 0), (0, 1), (0, 2)]\<rparr>,
          \<lparr>word = ''abd'', coordinates = [(0, 0), (0, 1), (1, 1)]\<rparr>] \<and>
   sorted_wrt ranks_before [''abcd'', ''abc'', ''abd''] \<and>
   ranks_before ''abcd'' ''abc'' \<and> ranks_before ''abc'' ''abd''"
proof -
  let ?it = "\<lambda>S :: string set. [''abd'', ''abcd'', ''abc'']"
  let ?out = "[\<lparr>word = ''abcd'', coordinates = [(0, 0), (0, 1), (0, 2), (1, 1)]\<rparr>,
          \<lparr>word = ''abc'', coordinates = [(0, 0), (0, 1), (0, 2)]\<rparr>,
          \<lparr>word = ''abd'', coordinates = [(0, 0), (0, 1), (1, 1)]\<rparr>]"
  have i: "iterates ?it (results sample_state)"
    by (auto simp: iterates_def sample_state_def)
  have d: "results sample_state \<subseteq> dom (paths sample_state)"
    by (simp add: sample_state_def)
  note T = results_sorted_limited [of ?it sample_state ?out]
  from T sample_select i have s: "sorted_wrt ranks_before (map word ?out)" by blast
  then have s': "sorted_wrt ranks_before [''abcd'', ''abc'', ''abd'']" by simp
  then have "ranks_before ''abcd'' ''abc'' \<and> ranks_before ''abc'' ''abd''" by simp
  then show ?thesis using i d sample_select s' by simp
qed

text \<open>
  Claim C10. The model of \<open>find_words\<close> is a function of the board, the trie and the
  order in which the set \<open>results\<close> is iterated, which is the one thing that differs
  between two runs of the Python code on the same inputs. For any two iteration orders
  (each listing the result words once) the outputs are identical, words and paths, and
  the path of every word is its first discovery in the fixed order of the search; when
  the search raises, both runs raise the same error.
\<close>

theorem find_words_deterministic:
  "(solve board trie = Inr st \<and> iterates it1 (results st) \<and> iterates it2 (results st) \<longrightarrow>
      find_words it1 board trie = find_words it2 board trie \<and>
      (\<exists>out. find_words it1 board trie = Inr out \<and>
         (\<forall>r \<in> set out. first_discovery (word r) (discovered st) = Some (coordinates r)))) \<and>
   (solve board trie = Inl e \<longrightarrow>
      find_words it1 board trie = Inl e \<and> find_words it2 board trie = Inl e)"
proof (intro conjI impI)
  assume a: "solve board trie = Inr st \<and> iterates it1 (results st) \<and> iterates it2 (results st)"
  then have st: "solve board trie = Inr st" and i1: "iterates it1 (results st)"
    and i2: "iterates it2 (results st)" by simp_all
  show "find_words it1 board trie = find_words it2 board trie"
    using st i1 i2 by (rule find_words_det)
  from find_words_total [OF st i1] obtain out where out: "find_words it1 board trie = Inr out"
    by blast
  then have sel: "select_words it1 st = Inr out" by (simp add: find_words_def st)
  from solve_invariants [OF st] have c: "consistent st" by simp
  from select_words_Inr [OF sel] c
  have "\<forall>r \<in> set out. first_discovery (word r) (discovered st) = Some (coordinates r)"
    by (simp add: consistent_def first_discovery_map_of)
  with out show "\<exists>out. find_words it1 board trie = Inr out \<and>
         (\<forall>r \<in> set out. first_discovery (word r) (discovered st) = Some (coordinates r))"
    by blast
next
  assume "solve board trie = Inl e"
  then show "find_words it1 board trie = Inl e" by (rule find_words_fail)
next
  assume "solve board trie = Inl e"
  then show "find_words it2 board trie = Inl e" by (rule find_words_fail)
qed

text \<open>
  Claim C10, witness: on \<open>demo_board\<close> the result set iterated in ascending and in
  descending order gives the same output.
\<close>

theorem find_words_deterministic_witness:
  "solve demo_board demo_trie = Inr demo_state \<and>
   iterates sorted_list_of_set (results demo_state) \<and>
   iterates (\<lambda>S. rev (sorted_list_of_set S)) (results demo_state) \<and>
   sorted_list_of_set (results demo_state) = [''hex'', ''the''] \<and>
   rev (sorted_list_of_set (results demo_state)) = [''the'', ''hex''] \<and>
   find_words sorted_list_of_set demo_board demo_trie =
     find_words (\<lambda>S. rev (sorted_list_of_set S)) demo_board demo_trie \<and>
   find_words sorted_list_of_set demo_board demo_trie = Inr demo_out"
proof -
  have fin: "finite (results demo_state)" by (simp add: demo_state_def)
  have i1: "iterates sorted_list_of_set (results demo_state)"
    using fin by (simp add: iterates_def)
  have i2: "iterates (\<lambda>S. rev (sorted_list_of_set S)) (results demo_state)"
    using fin by (simp add: iterates_def)
  have o: "sorted_list_of_set (results demo_state) = [''hex'', ''the'']"
    unfolding demo_state_def by code_simp
  note T = find_words_deterministic [of demo_board demo_trie demo_state sorted_list_of_set
      "\<lambda>S. rev (sorted_list_of_set S)"]
  from T demo_solve i1 i2
  have "find_words sorted_list_of_set demo_board demo_trie =
     find_words (\<lambda>S. rev (sorted_list_of_set S)) demo_board demo_trie" by blast
  then show ?thesis using demo_solve i1 i2 o demo_find_up by simp
qed

subsection \<open>The trie builder\<close>

lemma map_of_dict_set: "map_of (dict_set k v d) = (map_of d)(k \<mapsto> v)"
  by (induction d) (auto simp: fun_eq_iff)

lemma keys_dict_set: "fst ` set (dict_set k v d) = insert k (fst ` set d)"
proof (induction d)
  case Nil
  show ?case by simp
next
  case (Cons a d)
  obtain k' v' where a: "a = (k', v')" by (cases a)
  show ?case using Cons by (cases "k' = k") (auto simp: a)
qed

lemma set_dict_set: "set (dict_set k v d) \<subseteq> insert (k, v) (set d)"
proof (induction d)
  case Nil
  show ?case by simp
next
  case (Cons a d)
  obtain k' v' where a: "a = (k', v')" by (cases a)
  show ?case using Cons by (cases "k' = k") (auto simp: a)
qed

lemma dict_set_same: "map_of d k = Some v \<Longrightarrow> dict_set k v d = d"
  by (induction d) (auto split: if_splits)

lemma well_formed_lookup:
  "well_formed (Dict d) \<Longrightarrow> map_of d k = Some t \<Longrightarrow> well_formed t \<and> (t = PyTrue \<longleftrightarrow> k = CHR ''$'')"
  by (auto dest!: map_of_SomeD)

lemma well_formed_set:
  assumes "well_formed (Dict d)" and "well_formed t" and "t = PyTrue \<longleftrightarrow> k = CHR ''$''"
  shows "well_formed (Dict (dict_set k t d))"
  using assms set_dict_set [of k t d] by auto

lemma alpha_not_dollar: "py_isalpha_char c \<Longrightarrow> c \<noteq> CHR ''$''"
  by (auto simp: py_isalpha_char_def Let_def)

lemma spells_empty: "\<not> spells [] v"
  by (cases v) simp_all

lemma spells_dollar: "well_formed (Dict d) \<Longrightarrow> \<not> spells d (CHR ''$'' # cs)"
  by (auto split: option.splits trie.splits dest!: map_of_SomeD)

lemma insert_word_ok:
  assumes "list_all py_isalpha_char w" and "well_formed (Dict node)"
  shows "\<exists>node'. insert_word w node = Inr node' \<and> well_formed (Dict node') \<and>
           (\<forall>v. spells node' v \<longleftrightarrow> v = w \<or> spells node v)"
  using assms
proof (induction w arbitrary: node)
  case Nil
  let ?n = "dict_set (CHR ''$'') PyTrue node"
  have wf: "well_formed (Dict ?n)" using Nil.prems(2) by (intro well_formed_set) simp_all
  have "spells ?n v \<longleftrightarrow> v = [] \<or> spells node v" for v
  proof (cases v)
    case Nil
    then show ?thesis by (simp add: keys_dict_set)
  next
    case (Cons c cs)
    show ?thesis
    proof (cases "c = CHR ''$''")
      case True
      then show ?thesis using spells_dollar [OF wf] spells_dollar [OF Nil.prems(2)] Cons by simp
    next
      case False
      then show ?thesis using Cons by (simp add: map_of_dict_set)
    qed
  qed
  then show ?case using wf by simp
next
  case (Cons x xs)
  from Cons.prems(1) have ax: "py_isalpha_char x" and axs: "list_all py_isalpha_char xs" by simp_all
  from ax have xd: "x \<noteq> CHR ''$''" by (rule alpha_not_dollar)
  have step: "\<exists>node'. insert_word (x # xs) node = Inr node' \<and> well_formed (Dict node') \<and>
           (\<forall>v. spells node' v \<longleftrightarrow> v = x # xs \<or> spells node v)"
    if ins: "insert_word (x # xs) node = Inr (dict_set x (Dict child') node)"
      and wfc: "well_formed (Dict child')"
      and sp: "\<And>v. spells child' v \<longleftrightarrow> v = xs \<or> spells node (x # v)"
    for child'
  proof -
    let ?n = "dict_set x (Dict child') node"
    have wf: "well_formed (Dict ?n)"
      using Cons.prems(2) wfc xd by (intro well_formed_set) simp_all
    have "spells ?n v \<longleftrightarrow> v = x # xs \<or> spells node v" for v
    proof (cases v)
      case Nil
      then show ?thesis using xd by (auto simp: keys_dict_set)
    next
      case (Cons c cs)
      show ?thesis
      proof (cases "c = x")
        case True
        then show ?thesis using Cons sp [of cs] by (simp add: map_of_dict_set)
      next
        case False
        then show ?thesis using Cons by (simp add: map_of_dict_set)
      qed
    qed
    then show ?thesis using ins wf by simp
  qed
  show ?case
  proof (cases "map_of node x")
    case None
    have "well_formed (Dict [])" by simp
    from Cons.IH [OF axs this] obtain child where
      c: "insert_word xs [] = Inr child" and wfc: "well_formed (Dict child)"
      and sp: "\<forall>v. spells child v \<longleftrightarrow> v = xs \<or> spells [] v" by blast
    show ?thesis
    proof (rule step [of child])
      show "insert_word (x # xs) node = Inr (dict_set x (Dict child) node)"
        by (simp add: None c)
      show "well_formed (Dict child)" by (rule wfc)
      show "spells child v \<longleftrightarrow> v = xs \<or> spells node (x # v)" for v
        using sp None by (simp add: spells_empty)
    qed
  next
    case (Some t)
    from well_formed_lookup [OF Cons.prems(2) Some] xd
    obtain child where t: "t = Dict child" and wfc0: "well_formed (Dict child)"
      by (cases t) auto
    from Cons.IH [OF axs wfc0] obtain child' where
      c: "insert_word xs child = Inr child'" and wfc: "well_formed (Dict child')"
      and sp: "\<forall>v. spells child' v \<longleftrightarrow> v = xs \<or> spells child v" by blast
    show ?thesis
    proof (rule step [of child'])
      show "insert_word (x # xs) node = Inr (dict_set x (Dict child') node)"
        by (simp add: Some t c)
      show "well_formed (Dict child')" by (rule wfc)
      show "spells child' v \<longleftrightarrow> v = xs \<or> spells node (x # v)" for v
        using sp Some t by simp
    qed
  qed
qed

lemma insert_word_idem:
  assumes "list_all py_isalpha_char w" and "well_formed (Dict node)" and "spells node w"
  shows "insert_word w node = Inr node"
  using assms
proof (induction w arbitrary: node)
  case Nil
  from Nil.prems(3) obtain t where "(CHR ''$'', t) \<in> set node" by auto
  then obtain t' where m: "map_of node (CHR ''$'') = Some t'"
    by (metis weak_map_of_SomeI)
  from well_formed_lookup [OF Nil.prems(2) m] have "t' = PyTrue" by simp
  then show ?case using m by (simp add: dict_set_same)
next
  case (Cons x xs)
  from Cons.prems(3) obtain child where m: "map_of node x = Some (Dict child)"
    and s: "spells child xs"
    by (auto split: option.splits trie.splits)
  from well_formed_lookup [OF Cons.prems(2) m] have wfc: "well_formed (Dict child)" by simp
  from Cons.prems(1) have "list_all py_isalpha_char xs" by simp
  from Cons.IH [OF this wfc s] show ?case using m by (simp add: dict_set_same)
qed

lemma accepted_iff:
  "accepted w \<longleftrightarrow> \<not> (w = [] \<or> \<not> py_isalpha w) \<and> \<not> length w < 3"
  by (auto simp: accepted_def py_isalpha_def)

lemma build_loop_ok:
  assumes "well_formed (Dict trie)"
  shows "\<exists>trie'. build_loop lines trie count = Inr (trie', count + length (accepted_words lines)) \<and>
           well_formed (Dict trie') \<and>
           (\<forall>v. spells trie' v \<longleftrightarrow> v \<in> set (accepted_words lines) \<or> spells trie v)"
  using assms
proof (induction lines arbitrary: trie count)
  case Nil
  then show ?case by (simp add: accepted_words_def)
next
  case (Cons line rest)
  define w where "w = py_lower (py_strip line)"
  have aw: "accepted_words (line # rest) = (if accepted w then w # accepted_words rest
                                             else accepted_words rest)"
    by (simp add: accepted_words_def w_def)
  show ?case
  proof (cases "accepted w")
    case False
    then have "build_loop (line # rest) trie count = build_loop rest trie count"
      by (auto simp: accepted_iff w_def [symmetric] Let_def)
    then show ?thesis using Cons.IH [OF Cons.prems, of count] False by (simp add: aw)
  next
    case True
    then have al: "list_all py_isalpha_char w" by (simp add: accepted_def)
    from insert_word_ok [OF al Cons.prems] obtain t1 where
      i: "insert_word w trie = Inr t1" and wf1: "well_formed (Dict t1)"
      and sp1: "\<forall>v. spells t1 v \<longleftrightarrow> v = w \<or> spells trie v" by blast
    have "build_loop (line # rest) trie count = build_loop rest t1 (count + 1)"
      using True i by (auto simp: accepted_iff w_def [symmetric] Let_def)
    moreover from Cons.IH [OF wf1, of "count + 1"] obtain t2 where
      "build_loop rest t1 (count + 1) = Inr (t2, count + 1 + length (accepted_words rest))"
      and "well_formed (Dict t2)"
      and "\<forall>v. spells t2 v \<longleftrightarrow> v \<in> set (accepted_words rest) \<or> spells t1 v" by blast
    ultimately show ?thesis using True sp1 by (auto simp: aw)
  qed
qed

lemma build_loop_append:
  "build_loop (xs @ ys) trie count =
     (case build_loop xs trie count of Inl e \<Rightarrow> Inl e | Inr (t, n) \<Rightarrow> build_loop ys t n)"
  by (induction xs arbitrary: trie count) (auto simp: Let_def split: sum.splits)

lemma build_trie_ok:
  "\<exists>trie. build_trie lines = Inr (trie, length (accepted_words lines)) \<and>
          well_formed (Dict trie) \<and> (\<forall>v. spells trie v \<longleftrightarrow> v \<in> set (accepted_words lines))"
proof -
  have "well_formed (Dict [])" by simp
  from build_loop_ok [OF this, of lines 0] show ?thesis
    by (simp add: build_trie_def spells_empty)
qed

lemma build_trie_again:
  assumes "build_trie lines = Inr (trie, n)" and "well_formed (Dict trie)"
    and "\<forall>v. spells trie v \<longleftrightarrow> v \<in> set (accepted_words lines)"
    and "\<not> accepted (py_lower (py_strip line)) \<or> py_lower (py_strip line) \<in> set (accepted_words lines)"
  shows "build_trie (lines @ [line]) =
           Inr (trie, n + (if accepted (py_lower (py_strip line)) then 1 else 0))"
proof -
  define w where "w = py_lower (py_strip line)"
  have one: "build_loop [line] trie n = Inr (trie, n + (if accepted w then 1 else 0))"
  proof (cases "accepted w")
    case False
    then show ?thesis by (auto simp: accepted_iff w_def [symmetric] Let_def)
  next
    case True
    then have al: "list_all py_isalpha_char w" by (simp add: accepted_def)
    from True assms(4) have "w \<in> set (accepted_words lines)" by (simp add: w_def)
    then have "spells trie w" using assms(3) by simp
    from insert_word_idem [OF al assms(2) this] True show ?thesis
      by (auto simp: accepted_iff w_def [symmetric] Let_def)
  qed
  show ?thesis
    using assms(1) one
    by (simp add: build_trie_def build_loop_append w_def)
qed

lemma accepted_words_D:
  "w \<in> set (accepted_words lines) \<Longrightarrow>
     w \<noteq> [] \<and> list_all py_isalpha_char w \<and> 3 \<le> length w \<and>
     (\<exists>line \<in> set lines. w = py_lower (py_strip line))"
  by (auto simp: accepted_words_def accepted_def)

lemma word_file_built: "build_trie word_file = Inr (demo_trie, 3)"
  by code_simp

lemma word_file_accepted: "accepted_words word_file = [''the'', ''hex'', ''the'']"
  by code_simp

text \<open>
  Claim C9. For every list of lines the builder returns, with no error. A word is spelled
  by the built trie from the root to a terminal mark exactly if it is the cleaned form
  (stripped, lowercased) of some line and is accepted, that is nonempty, alphabetic
  throughout and of length at least 3; the printed count is the number of accepted lines.
  A line that is not accepted leaves the trie and the count as they are, and a line that
  repeats an earlier one raises no error and leaves the trie as it is.
\<close>

theorem build_trie_correct:
  "\<exists>trie n. build_trie lines = Inr (trie, n) \<and> n = length (accepted_words lines) \<and>
     (\<forall>w. spells trie w \<longleftrightarrow> w \<in> set (accepted_words lines)) \<and>
     (\<forall>w. spells trie w \<longrightarrow>
        w \<noteq> [] \<and> list_all py_isalpha_char w \<and> 3 \<le> length w \<and>
        (\<exists>line \<in> set lines. w = py_lower (py_strip line))) \<and>
     (\<forall>line. \<not> accepted (py_lower (py_strip line)) \<longrightarrow>
        build_trie (lines @ [line]) = Inr (trie, n)) \<and>
     (\<forall>line \<in> set lines. accepted (py_lower (py_strip line)) \<longrightarrow>
        build_trie (lines @ [line]) = Inr (trie, n + 1))"
proof -
  from build_trie_ok [of lines] obtain trie where
    b: "build_trie lines = Inr (trie, length (accepted_words lines))"
    and wf: "well_formed (Dict trie)"
    and sp: "\<forall>v. spells trie v \<longleftrightarrow> v \<in> set (accepted_words lines)" by blast
  have 1: "\<forall>w. spells trie w \<longrightarrow>
        w \<noteq> [] \<and> list_all py_isalpha_char w \<and> 3 \<le> length w \<and>
        (\<exists>line \<in> set lines. w = py_lower (py_strip line))"
    using sp accepted_words_D by blast
  have 2: "\<forall>line. \<not> accepted (py_lower (py_strip line)) \<longrightarrow>
        build_trie (lines @ [line]) = Inr (trie, length (accepted_words lines))"
    using build_trie_again [OF b wf sp] by simp
  have 3: "\<forall>line \<in> set lines. accepted (py_lower (py_strip line)) \<longrightarrow>
        build_trie (lines @ [line]) = Inr (trie, length (accepted_words lines) + 1)"
  proof (intro ballI impI)
    fix line assume l: "line \<in> set lines" and a: "accepted (py_lower (py_strip line))"
    then have "py_lower (py_strip line) \<in> set (accepted_words lines)"
      by (auto simp: accepted_words_def)
    from build_trie_again [OF b wf sp disjI2, OF this] a
    show "build_trie (lines @ [line]) = Inr (trie, length (accepted_words lines) + 1)" by simp
  qed
  from b sp 1 2 3 show ?thesis by blast
qed

text \<open>
  Claim C9, witness: the lines \<open>The\<close>, \<open> hex \<close>, \<open>ab\<close>, \<open>a1c\<close>, the empty line, \<open>it's\<close>
  and \<open>the\<close> build the trie of \<open>the\<close> and \<open>hex\<close> with the count 3; \<open>ab\<close> is not in it;
  the line \<open>The\<close> once more leaves the trie and makes the count 4.
\<close>

theorem build_trie_correct_witness:
  "build_trie word_file = Inr (demo_trie, 3) \<and>
   accepted_words word_file = [''the'', ''hex'', ''the''] \<and>
   spells demo_trie ''the'' \<and> spells demo_trie ''hex'' \<and> \<not> spells demo_trie ''ab'' \<and>
   ''The'' \<in> set word_file \<and> accepted (py_lower (py_strip ''The'')) \<and>
   \<not> accepted (py_lower (py_strip ''a1c'')) \<and>
   build_trie (word_file @ [''The'']) = Inr (demo_trie, 4) \<and>
   build_trie (word_file @ [''a1c'']) = Inr (demo_trie, 3)"
proof -
  from build_trie_correct [of word_file] obtain trie n where
    b: "build_trie word_file = Inr (trie, n)"
    and sp: "\<forall>w. spells trie w \<longleftrightarrow> w \<in> set (accepted_words word_file)"
    and skip: "\<forall>line. \<not> accepted (py_lower (py_strip line)) \<longrightarrow>
        build_trie (word_file @ [line]) = Inr (trie, n)"
    and dup: "\<forall>line \<in> set word_file. accepted (py_lower (py_strip line)) \<longrightarrow>
        build_trie (word_file @ [line]) = Inr (trie, n + 1)"
    by blast
  from b word_file_built have t: "trie = demo_trie" and n: "n = 3" by simp_all
  have m: "''The'' \<in> set word_file" by (simp add: word_file_def)
  have a: "accepted (py_lower (py_strip ''The''))" by code_simp
  have na: "\<not> accepted (py_lower (py_strip ''a1c''))" by code_simp
  from sp have s: "spells demo_trie ''the'' \<and> spells demo_trie ''hex'' \<and> \<not> spells demo_trie ''ab''"
    by (simp add: t word_file_accepted del: spells.simps)
  from dup m a have d: "build_trie (word_file @ [''The'']) = Inr (demo_trie, 4)"
    by (simp add: t n)
  from skip na have k: "build_trie (word_file @ [''a1c'']) = Inr (demo_trie, 3)"
    by (simp add: t n)
  from word_file_built word_file_accepted s m a na d k show ?thesis by blast
qed

end
